theory Spec2Isabelle
  imports Main
begin

section \<open>JavaScript values\<close>

text \<open>
  Property bags, style maps and handler references of the framework are JavaScript values.
  Numbers are the integers (fractions and NaN are outside this model); a function is
  known by its reference only; an object or array carries the identity that \<open>===\<close>
  compares, and its own enumerable properties in insertion order.
\<close>

datatype jsval =
    JUndefined
  | JNull
  | JBool bool
  | JNum int
  | JStr string
  | JFun nat
  | JObject nat "(string \<times> jsval) list"
  | JArray nat "jsval list"

type_synonym props = "(string \<times> jsval) list"

text \<open>Truthiness, as tested by \<open>if (x)\<close>, \<open>!x\<close> and \<open>x && y\<close>.\<close>

fun truthy :: "jsval \<Rightarrow> bool" where
  "truthy JUndefined = False"
| "truthy JNull = False"
| "truthy (JBool b) = b"
| "truthy (JNum n) = (n \<noteq> 0)"
| "truthy (JStr s) = (s \<noteq> [])"
| "truthy (JFun f) = True"
| "truthy (JObject i fs) = True"
| "truthy (JArray i xs) = True"

text \<open>The operator \<open>typeof\<close>.\<close>

fun typeof :: "jsval \<Rightarrow> string" where
  "typeof JUndefined = ''undefined''"
| "typeof JNull = ''object''"
| "typeof (JBool b) = ''boolean''"
| "typeof (JNum n) = ''number''"
| "typeof (JStr s) = ''string''"
| "typeof (JFun f) = ''function''"
| "typeof (JObject i fs) = ''object''"
| "typeof (JArray i xs) = ''object''"

text \<open>Strict equality \<open>===\<close>: by value on primitives, by reference on functions, objects and arrays.\<close>

fun strict_eq :: "jsval \<Rightarrow> jsval \<Rightarrow> bool" where
  "strict_eq (JObject i fs) (JObject j gs) = (i = j)"
| "strict_eq (JArray i xs) (JArray j ys) = (i = j)"
| "strict_eq a b = (a = b)"

text \<open>Reading a property: \<open>obj[key]\<close> is \<open>undefined\<close> when the key is absent.\<close>

definition prop_get :: "props \<Rightarrow> string \<Rightarrow> jsval" where
  "prop_get ps k = (case map_of ps k of None \<Rightarrow> JUndefined | Some v \<Rightarrow> v)"

text \<open>Writing a property keeps the position of an existing key and appends a new one.\<close>

fun prop_set :: "string \<Rightarrow> 'v \<Rightarrow> (string \<times> 'v) list \<Rightarrow> (string \<times> 'v) list" where
  "prop_set k v [] = [(k, v)]"
| "prop_set k v ((k', v') # kvs) =
     (if k = k' then (k, v) # kvs else (k', v') # prop_set k v kvs)"

subsection \<open>Conversion to string\<close>

fun show_nat :: "nat \<Rightarrow> string" where
  "show_nat n =
     (if n < 10 then [''0123456789'' ! n]
      else show_nat (n div 10) @ [''0123456789'' ! (n mod 10)])"

definition show_int :: "int \<Rightarrow> string" where
  "show_int i = (if i < 0 then CHR ''-'' # show_nat (nat (- i)) else show_nat (nat i))"

fun join :: "string \<Rightarrow> string list \<Rightarrow> string" where
  "join sep [] = []"
| "join sep [x] = x"
| "join sep (x # y # ys) = x @ sep @ join sep (y # ys)"

text \<open>
  \<open>String(v)\<close>, which is also the coercion \<open>setAttribute\<close> applies to its value. The
  source text that JavaScript prints for a function is not modelled: a placeholder that
  names the reference stands for it.
\<close>

fun to_String :: "jsval \<Rightarrow> string"
  and to_String_element :: "jsval \<Rightarrow> string"
  and to_String_elements :: "jsval list \<Rightarrow> string list" where
  "to_String JUndefined = ''undefined''"
| "to_String JNull = ''null''"
| "to_String (JBool b) = (if b then ''true'' else ''false'')"
| "to_String (JNum n) = show_int n"
| "to_String (JStr s) = s"
| "to_String (JFun f) = ''function#'' @ show_nat f"
| "to_String (JObject i fs) = ''[object Object]''"
| "to_String (JArray i xs) = join '','' (to_String_elements xs)"
| "to_String_element v = (if v = JUndefined \<or> v = JNull then [] else to_String v)"
| "to_String_elements [] = []"
| "to_String_elements (x # xs) = to_String_element x # to_String_elements xs"

subsection \<open>Serialisation\<close>

definition hex_digit :: "nat \<Rightarrow> char" where
  "hex_digit n = ''0123456789abcdef'' ! (n mod 16)"

definition json_char :: "char \<Rightarrow> string" where
  "json_char c =
     (let n = (of_char c :: nat) in
      if n = 34 then [CHR 0x5C, CHR 0x22]
      else if n = 92 then [CHR 0x5C, CHR 0x5C]
      else if n = 8 then [CHR 0x5C, CHR ''b'']
      else if n = 12 then [CHR 0x5C, CHR ''f'']
      else if n = 10 then [CHR 0x5C, CHR ''n'']
      else if n = 13 then [CHR 0x5C, CHR ''r'']
      else if n = 9 then [CHR 0x5C, CHR ''t'']
      else if n < 32 then
        [CHR 0x5C, CHR ''u'', CHR ''0'', CHR ''0'', hex_digit (n div 16), hex_digit n]
      else [c])"

definition json_quote :: "string \<Rightarrow> string" where
  "json_quote s = CHR 0x22 # concat (map json_char s) @ [CHR 0x22]"

text \<open>
  \<open>JSON.stringify(v)\<close>; \<open>None\<close> is the result \<open>undefined\<close>. A member whose value
  serialises to \<open>undefined\<close> is left out of an object and written \<open>null\<close> in an array.
\<close>

fun JSON_stringify :: "jsval \<Rightarrow> string option"
  and json_members :: "(string \<times> jsval) list \<Rightarrow> string list"
  and json_elements :: "jsval list \<Rightarrow> string list" where
  "JSON_stringify JUndefined = None"
| "JSON_stringify JNull = Some ''null''"
| "JSON_stringify (JBool b) = Some (if b then ''true'' else ''false'')"
| "JSON_stringify (JNum n) = Some (show_int n)"
| "JSON_stringify (JStr s) = Some (json_quote s)"
| "JSON_stringify (JFun f) = None"
| "JSON_stringify (JObject i fs) = Some (''{'' @ join '','' (json_members fs) @ ''}'')"
| "JSON_stringify (JArray i xs) = Some (''['' @ join '','' (json_elements xs) @ '']'')"
| "json_members [] = []"
| "json_members ((k, v) # kvs) =
     (case JSON_stringify v of
        None \<Rightarrow> json_members kvs
      | Some s \<Rightarrow> (json_quote k @ '':'' @ s) # json_members kvs)"
| "json_elements [] = []"
| "json_elements (x # xs) =
     (case JSON_stringify x of None \<Rightarrow> ''null'' | Some s \<Rightarrow> s) # json_elements xs"

text \<open>A property bag is serialised as the object it is.\<close>

definition stringify_props :: "props \<Rightarrow> string option" where
  "stringify_props ps = JSON_stringify (JObject 0 ps)"

subsection \<open>Object.assign\<close>

text \<open>
  \<open>Object_assign\<close> is the assignment onto a plain object, where every property
  takes the value written to it.
\<close>

fun indexed :: "nat \<Rightarrow> 'a list \<Rightarrow> (string \<times> 'a) list" where
  "indexed i [] = []"
| "indexed i (x # xs) = (show_nat i, x) # indexed (Suc i) xs"

text \<open>The own enumerable properties that \<open>Object.assign\<close> copies from a source value.\<close>

fun own_entries :: "jsval \<Rightarrow> (string \<times> jsval) list" where
  "own_entries (JObject i fs) = fs"
| "own_entries (JArray i xs) = indexed 0 xs"
| "own_entries (JStr s) = indexed 0 (map (\<lambda>c. JStr [c]) s)"
| "own_entries v = []"

definition Object_assign :: "props \<Rightarrow> jsval \<Rightarrow> props" where
  "Object_assign target source = foldl (\<lambda>t (k, v). prop_set k v t) target (own_entries source)"

subsection \<open>Strings\<close>

definition startsWith :: "string \<Rightarrow> string \<Rightarrow> bool" where
  "startsWith s p = (take (length p) s = p)"

definition toLowerCase_char :: "char \<Rightarrow> char" where
  "toLowerCase_char c =
     (case map_of (zip ''ABCDEFGHIJKLMNOPQRSTUVWXYZ'' ''abcdefghijklmnopqrstuvwxyz'') c of
        None \<Rightarrow> c
      | Some l \<Rightarrow> l)"

text \<open>\<open>toLowerCase\<close> on the ASCII letters, which is what event-handler names are made of.\<close>

definition toLowerCase :: "string \<Rightarrow> string" where
  "toLowerCase s = map toLowerCase_char s"

text \<open>The native event name of a handler key: \<open>key.slice(2).toLowerCase()\<close>.\<close>

definition eventName :: "string \<Rightarrow> string" where
  "eventName key = toLowerCase (drop 2 key)"

text \<open>
  An array index: the canonical decimal numeral of an integer from 0 to \<open>2\<^sup>3\<^sup>2 - 2\<close>.
\<close>

definition decimal :: "string \<Rightarrow> nat" where
  "decimal k = foldl (\<lambda>n c. 10 * n + (of_char c - 48)) 0 k"

definition array_index :: "string \<Rightarrow> bool" where
  "array_index k =
     (k \<noteq> [] \<and> list_all (\<lambda>c. c \<in> set ''0123456789'') k
      \<and> (k = ''0'' \<or> hd k \<noteq> CHR ''0'') \<and> decimal k < 4294967295)"

section \<open>The render target\<close>

text \<open>
  The render target is the document tree. A node carries the identity given to it when
  it was created; an element carries its attributes, the declarations of its style
  object, the properties written on it directly (\<open>value\<close>, \<open>checked\<close>), the
  event listeners registered on it and its child nodes. A listener remembers the signal
  it was registered under. Coercion of \<open>value\<close> and \<open>checked\<close> by
  particular element types is not modelled: such a property keeps the value that was
  written.
\<close>

datatype listener = Listener (l_type: string) (l_callback: jsval) (l_signal: nat)

datatype dom =
    Text (nodeId: nat) (nodeValue: string)
  | Element (nodeId: nat) (tagName: string) (attributes: "(string \<times> string) list")
      (style: props) (properties: props) (listeners: "listener list") (childNodes: "dom list")

text \<open>
  \<open>BadCast\<close> marks a TypeScript \<open>as\<close> cast of the source that does not hold at run
  time (the old node is not of the new node's kind, the render-target node is not of the
  kind the virtual node calls for, or \<open>childNodes[i]\<close> is absent): the model stops
  there. \<open>OutOfFuel\<close> says that the recursion budget of the model ran out, that is,
  the source has not returned yet.
\<close>

datatype error = InvalidJSXNode | TypeError | DOMException | BadCast | OutOfFuel

text \<open>
  What the code does beyond its arguments: it creates nodes and controllers, aborts
  controllers and calls component functions. \<open>effects\<close> records the aborts and the
  calls in the order they happen.

  The platform under the code is part of the world as well, and the code cannot change
  it: \<open>validName\<close> tells which attribute names \<open>setAttribute\<close> accepts, and
  \<open>styleSet\<close> tells what assigning a value to a property of a style object makes
  of the declarations of that object (it may store the value, store another text for
  it, ignore it, touch other declarations, or fail).
\<close>

datatype effect = Abort nat | Call nat props

record world =
  nextNode :: nat
  nextController :: nat
  aborted :: "nat \<Rightarrow> bool"
  effects :: "effect list"
  validName :: "string \<Rightarrow> bool"
  styleSet :: "string \<Rightarrow> jsval \<Rightarrow> props \<Rightarrow> error + props"

subsection \<open>Controllers\<close>

text \<open>\<open>new AbortController()\<close>: a controller that no one holds yet, its signal not aborted.\<close>

definition new_AbortController :: "world \<Rightarrow> nat \<times> world" where
  "new_AbortController st =
     (nextController st,
      st\<lparr>nextController := Suc (nextController st),
         aborted := (aborted st)(nextController st := False)\<rparr>)"

text \<open>\<open>controller.abort()\<close>: every listener registered under the signal is gone from now on.\<close>

definition abort :: "nat \<Rightarrow> world \<Rightarrow> world" where
  "abort c st = st\<lparr>aborted := (aborted st)(c := True), effects := effects st @ [Abort c]\<rparr>"

definition live :: "world \<Rightarrow> listener \<Rightarrow> bool" where
  "live st l = (\<not> aborted st (l_signal l))"

text \<open>The listeners of a node that still fire.\<close>

definition liveListeners :: "world \<Rightarrow> dom \<Rightarrow> listener list" where
  "liveListeners st node =
     (case node of Text i s \<Rightarrow> [] | Element i tg as sty ps ls cs \<Rightarrow> filter (live st) ls)"

subsection \<open>Node operations\<close>

definition createTextNode :: "string \<Rightarrow> world \<Rightarrow> dom \<times> world" where
  "createTextNode s st = (Text (nextNode st) s, st\<lparr>nextNode := Suc (nextNode st)\<rparr>)"

definition createElement :: "string \<Rightarrow> world \<Rightarrow> dom \<times> world" where
  "createElement tg st =
     (Element (nextNode st) tg [] [] [] [] [], st\<lparr>nextNode := Suc (nextNode st)\<rparr>)"

text \<open>
  \<open>element.setAttribute(name, v)\<close> on an element of an HTML document: a name the
  platform does not accept is an error; the attribute is stored under the name in ASCII
  lower case, with the value as a string.
\<close>

fun setAttribute :: "world \<Rightarrow> string \<Rightarrow> jsval \<Rightarrow> dom \<Rightarrow> error + dom" where
  "setAttribute st name v (Element i tg as sty ps ls cs) =
     (if validName st name
        then Inr (Element i tg (prop_set (toLowerCase name) (to_String v) as) sty ps ls cs)
      else Inl DOMException)"
| "setAttribute st name v (Text i s) = Inl TypeError"

text \<open>
  \<open>Object.assign(element.style, v)\<close>: the own enumerable properties of \<open>v\<close> are
  assigned to the style object one after the other. A style object has no setter for
  an array index, so such a key is a type error; what any other key does is the
  platform's.
\<close>

fun assign_entries :: "world \<Rightarrow> (string \<times> jsval) list \<Rightarrow> props \<Rightarrow> error + props" where
  "assign_entries st [] sty = Inr sty"
| "assign_entries st ((key, v) # kvs) sty =
     (if array_index key then Inl TypeError
      else (case styleSet st key v sty of
              Inl e \<Rightarrow> Inl e
            | Inr sty1 \<Rightarrow> assign_entries st kvs sty1))"

fun assignStyle :: "world \<Rightarrow> dom \<Rightarrow> jsval \<Rightarrow> error + dom" where
  "assignStyle st (Element i tg as sty ps ls cs) v =
     (case assign_entries st (own_entries v) sty of
        Inl e \<Rightarrow> Inl e
      | Inr sty1 \<Rightarrow> Inr (Element i tg as sty1 ps ls cs))"
| "assignStyle st (Text i s) v = Inl TypeError"

text \<open>\<open>element.value = v\<close> and \<open>element.checked = v\<close>.\<close>

fun setProperty :: "string \<Rightarrow> jsval \<Rightarrow> dom \<Rightarrow> error + dom" where
  "setProperty name v (Element i tg as sty ps ls cs) =
     Inr (Element i tg as sty (prop_set name v ps) ls cs)"
| "setProperty name v (Text i s) = Inl BadCast"

text \<open>
  \<open>element.addEventListener(type, callback, { signal })\<close>: nothing happens for a null
  or undefined callback, for a signal already aborted, or when a listener of this type
  and callback is registered already; a callback that is no object is a type error.
\<close>

fun addEventListener :: "string \<Rightarrow> jsval \<Rightarrow> nat \<Rightarrow> dom \<Rightarrow> world \<Rightarrow> error + dom" where
  "addEventListener ty cb sig (Element i tg as sty ps ls cs) st =
     (if cb = JUndefined \<or> cb = JNull then Inr (Element i tg as sty ps ls cs)
      else if \<not> (case cb of JFun f \<Rightarrow> True | JObject j fs \<Rightarrow> True | JArray j xs \<Rightarrow> True
                  | _ \<Rightarrow> False)
        then Inl TypeError
      else if aborted st sig then Inr (Element i tg as sty ps ls cs)
      else if \<exists>l \<in> set ls. live st l \<and> l_type l = ty \<and> strict_eq (l_callback l) cb
        then Inr (Element i tg as sty ps ls cs)
      else Inr (Element i tg as sty ps (ls @ [Listener ty cb sig]) cs))"
| "addEventListener ty cb sig (Text i s) st = Inl BadCast"

text \<open>Two references denote the same node when they carry the same identity.\<close>

definition same_node :: "dom \<Rightarrow> dom \<Rightarrow> bool" where
  "same_node a b = (nodeId a = nodeId b)"

fun remove_node :: "dom \<Rightarrow> dom list \<Rightarrow> dom list" where
  "remove_node x [] = []"
| "remove_node x (c # cs) = (if same_node c x then cs else c # remove_node x cs)"

fun insert_before :: "dom \<Rightarrow> dom \<Rightarrow> dom list \<Rightarrow> dom list option" where
  "insert_before x r [] = None"
| "insert_before x r (c # cs) =
     (if same_node c r then Some (x # c # cs)
      else (case insert_before x r cs of None \<Rightarrow> None | Some cs' \<Rightarrow> Some (c # cs')))"

fun replace_node :: "dom \<Rightarrow> dom \<Rightarrow> dom list \<Rightarrow> dom list option" where
  "replace_node x old [] = None"
| "replace_node x old (c # cs) =
     (if same_node c old then Some (x # cs)
      else (case replace_node x old cs of None \<Rightarrow> None | Some cs' \<Rightarrow> Some (c # cs')))"

fun index_of :: "dom \<Rightarrow> dom list \<Rightarrow> nat option" where
  "index_of x [] = None"
| "index_of x (c # cs) =
     (if same_node c x then Some 0
      else (case index_of x cs of None \<Rightarrow> None | Some i \<Rightarrow> Some (Suc i)))"

text \<open>\<open>xs[i]\<close>, which is \<open>undefined\<close> out of range.\<close>

definition at :: "'a list \<Rightarrow> nat \<Rightarrow> 'a option" where
  "at xs i = (if i < length xs then Some (xs ! i) else None)"

definition nextSibling :: "dom list \<Rightarrow> dom \<Rightarrow> dom option" where
  "nextSibling cs x = (case index_of x cs of None \<Rightarrow> None | Some i \<Rightarrow> at cs (Suc i))"

definition set_childNodes :: "dom \<Rightarrow> dom list \<Rightarrow> dom" where
  "set_childNodes p cs' =
     (case p of Text i s \<Rightarrow> Text i s
      | Element i tg as sty ps ls cs \<Rightarrow> Element i tg as sty ps ls cs')"

definition children_of :: "dom \<Rightarrow> dom list" where
  "children_of p = (case p of Text i s \<Rightarrow> [] | Element i tg as sty ps ls cs \<Rightarrow> cs)"

text \<open>\<open>parent.appendChild(node)\<close>; a node that is a child already moves to the end.\<close>

definition appendChild :: "dom \<Rightarrow> dom \<Rightarrow> error + dom" where
  "appendChild p x =
     (case p of Text i s \<Rightarrow> Inl DOMException
      | Element i tg as sty ps ls cs \<Rightarrow>
          Inr (Element i tg as sty ps ls (remove_node x cs @ [x])))"

text \<open>\<open>parent.removeChild(node)\<close>; \<open>None\<close> is a null or undefined argument.\<close>

definition removeChild :: "dom \<Rightarrow> dom option \<Rightarrow> error + dom" where
  "removeChild p x =
     (case x of None \<Rightarrow> Inl TypeError
      | Some c \<Rightarrow>
          (case index_of c (children_of p) of None \<Rightarrow> Inl DOMException
           | Some i \<Rightarrow> Inr (set_childNodes p (remove_node c (children_of p)))))"

text \<open>\<open>parent.replaceChild(node, old)\<close>.\<close>

definition replaceChild :: "dom \<Rightarrow> dom \<Rightarrow> dom option \<Rightarrow> error + dom" where
  "replaceChild p x old =
     (case old of None \<Rightarrow> Inl TypeError
      | Some c \<Rightarrow>
          (case replace_node x c (remove_node x (children_of p)) of None \<Rightarrow> Inl DOMException
           | Some cs' \<Rightarrow> Inr (set_childNodes p cs')))"

text \<open>
  \<open>parent.insertBefore(node, ref)\<close>: the node leaves the place it has and is put
  before \<open>ref\<close>, or at the end when \<open>ref\<close> is null. When \<open>ref\<close> is the node itself,
  the node's next sibling takes its role.
\<close>

definition insertBefore :: "dom \<Rightarrow> dom \<Rightarrow> dom option \<Rightarrow> error + dom" where
  "insertBefore p x ref =
     (case p of Text i s \<Rightarrow> Inl DOMException
      | Element i tg as sty ps ls cs \<Rightarrow>
          (let ref' = (case ref of None \<Rightarrow> None
                       | Some r \<Rightarrow> if same_node r x then nextSibling cs x else Some r)
           in case ref' of
                None \<Rightarrow> Inr (Element i tg as sty ps ls (remove_node x cs @ [x]))
              | Some r \<Rightarrow>
                  (case insert_before x r (remove_node x cs) of None \<Rightarrow> Inl DOMException
                   | Some cs' \<Rightarrow> Inr (Element i tg as sty ps ls cs'))))"

section \<open>Virtual nodes\<close>

text \<open>
  The three kinds of virtual node. An element node holds the controller whose signal its
  listeners are registered under; a component node holds the reference of its function
  and, once rendered, the node the function returned (\<open>topNode\<close>). A key is a string or
  absent. Property bags hold JavaScript values; the children handed to a component are
  in its bag as the objects that virtual nodes are.
\<close>

datatype vnode =
    VPrimitive (pvalue: jsval) (vkey: "string option")
  | VElement (tag: string) (vprops: props) (children: "vnode list") (controller: nat)
      (vkey: "string option")
  | VFunction (fn: nat) (vprops: props) (topNode: "vnode option") (vkey: "string option")

datatype vtype = Primitive | Html | Function

fun vnode_type :: "vnode \<Rightarrow> vtype" where
  "vnode_type (VPrimitive v k) = Primitive"
| "vnode_type (VElement tg ps cs c k) = Html"
| "vnode_type (VFunction f ps t k) = Function"

text \<open>The field \<open>value\<close>: the scalar, the tag name or the component function.\<close>

fun vnode_value :: "vnode \<Rightarrow> jsval" where
  "vnode_value (VPrimitive v k) = v"
| "vnode_value (VElement tg ps cs c k) = JStr tg"
| "vnode_value (VFunction f ps t k) = JFun f"

text \<open>\<open>child.key && ...\<close>: an absent or empty key does not count.\<close>

definition truthy_key :: "vnode \<Rightarrow> string option" where
  "truthy_key n = (case vkey n of None \<Rightarrow> None | Some k \<Rightarrow> if k = [] then None else Some k)"

section \<open>Constructing nodes\<close>

text \<open>
  What the factory receives: a first argument, which is any value, and a property bag
  whose \<open>children\<close> entry is absent, a single child or an array of children; a
  child is a virtual node, a string or a number. The bag is held in two parts, the
  \<open>children\<close> entry and the other entries.
\<close>

datatype 'a child_of = ChildNode 'a | ChildStr string | ChildNum int

datatype 'a children_arg = NoChildren | OneChild "'a child_of" | ManyChildren "'a child_of list"

record jsx_props =
  children_prop :: "vnode children_arg"
  rest :: props

definition wrap_child :: "vnode child_of \<Rightarrow> vnode" where
  "wrap_child c =
     (case c of ChildNode n \<Rightarrow> n
      | ChildStr s \<Rightarrow> VPrimitive (JStr s) None
      | ChildNum i \<Rightarrow> VPrimitive (JNum i) None)"

definition normalizeChildren :: "vnode children_arg \<Rightarrow> vnode list" where
  "normalizeChildren cs =
     (case cs of
        NoChildren \<Rightarrow> []
      | OneChild c \<Rightarrow>
          (if c = ChildStr [] \<or> c = ChildNum 0 then [] else [wrap_child c])
      | ManyChildren xs \<Rightarrow> map wrap_child xs)"

text \<open>
  A virtual node as the object it is, with the fields in the order in which the factory
  and \<open>normalizeChildren\<close> write them. Which object it is plays no role, since the
  code never compares these objects: they all carry the identity 0, and so do the
  arrays of children.
\<close>

definition key_value :: "string option \<Rightarrow> jsval" where
  "key_value k = (case k of None \<Rightarrow> JUndefined | Some s \<Rightarrow> JStr s)"

fun node_object :: "vnode \<Rightarrow> jsval" where
  "node_object (VPrimitive v k) =
     JObject 0 [(''type'', JStr ''primitive''), (''value'', v), (''domElement'', JUndefined),
                (''key'', key_value k)]"
| "node_object (VElement tg ps cs c k) =
     JObject 0 [(''type'', JStr ''html''), (''value'', JStr tg),
                (''children'', JArray 0 (map node_object cs)), (''props'', JObject 0 ps),
                (''controller'', JObject 0 []), (''key'', key_value k)]"
| "node_object (VFunction f ps t k) =
     JObject 0 [(''type'', JStr ''function''), (''value'', JFun f), (''props'', JObject 0 ps),
                (''topNode'', (case t of None \<Rightarrow> JUndefined | Some n \<Rightarrow> node_object n)),
                (''key'', key_value k)]"

definition child_value :: "vnode child_of \<Rightarrow> jsval" where
  "child_value c =
     (case c of ChildNode n \<Rightarrow> node_object n | ChildStr s \<Rightarrow> JStr s | ChildNum i \<Rightarrow> JNum i)"

text \<open>
  The \<open>children\<close> entry of a bag, and the bag as the one object it is: the
  \<open>children\<close> entry comes last, where a compiled template writes it.
\<close>

definition children_entry :: "vnode children_arg \<Rightarrow> props" where
  "children_entry cs =
     (case cs of
        NoChildren \<Rightarrow> []
      | OneChild c \<Rightarrow> [(''children'', child_value c)]
      | ManyChildren xs \<Rightarrow> [(''children'', JArray 0 (map child_value xs))])"

definition bag :: "jsx_props \<Rightarrow> props" where
  "bag ps = rest ps @ children_entry (children_prop ps)"

text \<open>
  \<open>parseJSXToEldoraNode\<close>. A function (\<open>typeof type === 'function'\<close>) gives a
  component node that stores the bag as it is, children included. A string gives an
  element node: the children are normalised, \<open>delete props.children\<close> leaves the
  other entries, and a controller is created. Anything else is an error.
\<close>

definition parseJSXToEldoraNode ::
  "jsval \<Rightarrow> jsx_props \<Rightarrow> string option \<Rightarrow> world \<Rightarrow> error + (vnode \<times> world)" where
  "parseJSXToEldoraNode type ps key st =
     (case type of
        JFun f \<Rightarrow> Inr (VFunction f (bag ps) None key, st)
      | JStr s \<Rightarrow>
          (let cs = normalizeChildren (children_prop ps);
               (c, st1) = new_AbortController st
           in Inr (VElement s (rest ps) cs c key, st1))
      | _ \<Rightarrow> Inl InvalidJSXNode)"

definition eldoraJSX ::
  "jsval \<Rightarrow> jsx_props \<Rightarrow> string option \<Rightarrow> world \<Rightarrow> error + (vnode \<times> world)" where
  "eldoraJSX type ps key st = parseJSXToEldoraNode type ps key st"

subsection \<open>Component functions\<close>

text \<open>
  A component function is pure: from its properties it computes a description of an
  element or of a further component, and the description becomes virtual nodes through
  the factory, innermost first, as the compiled template does. \<open>comps\<close> tells what
  each function reference computes.
\<close>

datatype jsx =
    JsxElement string props "jsx child_of list" "string option"
  | JsxComponent nat props "string option"

type_synonym comps = "nat \<Rightarrow> props \<Rightarrow> jsx"

definition children_arg_of :: "vnode child_of list \<Rightarrow> vnode children_arg" where
  "children_arg_of cs =
     (case cs of [] \<Rightarrow> NoChildren | [c] \<Rightarrow> OneChild c | _ \<Rightarrow> ManyChildren cs)"

function build :: "jsx \<Rightarrow> world \<Rightarrow> error + (vnode \<times> world)"
  and build_children :: "jsx child_of list \<Rightarrow> world \<Rightarrow> error + (vnode child_of list \<times> world)" where
  "build (JsxElement tg ps kids key) st =
     (case build_children kids st of
        Inl e \<Rightarrow> Inl e
      | Inr (cs, st1) \<Rightarrow>
          eldoraJSX (JStr tg) \<lparr>children_prop = children_arg_of cs, rest = ps\<rparr> key st1)"
| "build (JsxComponent f ps key) st =
     eldoraJSX (JFun f) \<lparr>children_prop = NoChildren, rest = ps\<rparr> key st"
| "build_children [] st = Inr ([], st)"
| "build_children (ChildNode j # kids) st =
     (case build j st of
        Inl e \<Rightarrow> Inl e
      | Inr (n, st1) \<Rightarrow>
          (case build_children kids st1 of
             Inl e \<Rightarrow> Inl e
           | Inr (cs, st2) \<Rightarrow> Inr (ChildNode n # cs, st2)))"
| "build_children (ChildStr s # kids) st =
     (case build_children kids st of
        Inl e \<Rightarrow> Inl e
      | Inr (cs, st1) \<Rightarrow> Inr (ChildStr s # cs, st1))"
| "build_children (ChildNum i # kids) st =
     (case build_children kids st of
        Inl e \<Rightarrow> Inl e
      | Inr (cs, st1) \<Rightarrow> Inr (ChildNum i # cs, st1))"
  by pat_completeness auto
termination
  by (relation "measure (case_sum (\<lambda>p. size (fst p))
                                  (\<lambda>p. size_list (size_child_of size) (fst p)))") auto

text \<open>\<open>node.value(node.props)\<close>: the call is recorded, then the result is constructed.\<close>

definition invoke :: "comps \<Rightarrow> nat \<Rightarrow> props \<Rightarrow> world \<Rightarrow> error + (vnode \<times> world)" where
  "invoke C f ps st = build (C f ps) (st\<lparr>effects := effects st @ [Call f ps]\<rparr>)"

section \<open>Rendering\<close>

text \<open>One entry of \<open>Object.entries(node.props)\<close> applied to the new element.\<close>

definition render_prop :: "nat \<Rightarrow> world \<Rightarrow> string \<times> jsval \<Rightarrow> dom \<Rightarrow> error + dom" where
  "render_prop signal st entry element =
     (case entry of (key, v) \<Rightarrow>
        if key = ''style'' then assignStyle st element v
        else if key = ''className'' then setAttribute st ''class'' v element
        else if key = ''value'' then setProperty ''value'' v element
        else if key = ''checked'' then setProperty ''checked'' v element
        else if startsWith key ''on'' then addEventListener (eventName key) v signal element st
        else setAttribute st key (JStr (to_String v)) element)"

fun forEach :: "('a \<Rightarrow> dom \<Rightarrow> error + dom) \<Rightarrow> 'a list \<Rightarrow> dom \<Rightarrow> error + dom" where
  "forEach f [] element = Inr element"
| "forEach f (x # xs) element =
     (case f x element of Inl e \<Rightarrow> Inl e | Inr element' \<Rightarrow> forEach f xs element')"

text \<open>
  \<open>node.children.forEach((child) => element.appendChild(render(child)))\<close>. Rendering
  writes \<open>topNode\<close> into component nodes, so the children come back as well.
\<close>

fun render_children ::
  "(vnode \<Rightarrow> world \<Rightarrow> error + (vnode \<times> dom \<times> world)) \<Rightarrow> vnode list \<Rightarrow> dom \<Rightarrow> world
     \<Rightarrow> error + (vnode list \<times> dom \<times> world)" where
  "render_children R [] element st = Inr ([], element, st)"
| "render_children R (child # cs) element st =
     (case R child st of
        Inl e \<Rightarrow> Inl e
      | Inr (child', node, st1) \<Rightarrow>
          (case appendChild element node of
             Inl e \<Rightarrow> Inl e
           | Inr element1 \<Rightarrow>
               (case render_children R cs element1 st1 of
                  Inl e \<Rightarrow> Inl e
                | Inr (cs', element2, st2) \<Rightarrow> Inr (child' # cs', element2, st2))))"

text \<open>
  \<open>render\<close>. The recursion follows the tree and the results of component functions,
  which need not end; the first argument after \<open>C\<close> bounds its depth.
\<close>

primrec render :: "comps \<Rightarrow> nat \<Rightarrow> vnode \<Rightarrow> world \<Rightarrow> error + (vnode \<times> dom \<times> world)" where
  "render C 0 = (\<lambda>node st. Inl OutOfFuel)"
| "render C (Suc n) = (\<lambda>node st.
     case node of
       VPrimitive v k \<Rightarrow>
         (case createTextNode (to_String v) st of (element, st1) \<Rightarrow> Inr (node, element, st1))
     | VElement tg ps cs c k \<Rightarrow>
         (case createElement tg st of (element, st1) \<Rightarrow>
            (case forEach (render_prop c st1) ps element of
               Inl e \<Rightarrow> Inl e
             | Inr element1 \<Rightarrow>
                 (case render_children (render C n) cs element1 st1 of
                    Inl e \<Rightarrow> Inl e
                  | Inr (cs', element2, st2) \<Rightarrow> Inr (VElement tg ps cs' c k, element2, st2))))
     | VFunction f ps t k \<Rightarrow>
         (case invoke C f ps st of
            Inl e \<Rightarrow> Inl e
          | Inr (topNode1, st1) \<Rightarrow>
              (case render C n topNode1 st1 of
                 Inl e \<Rightarrow> Inl e
               | Inr (topNode2, element, st2) \<Rightarrow>
                   Inr (VFunction f ps (Some topNode2) k, element, st2))))"

section \<open>Reconciliation\<close>

subsection \<open>Properties\<close>

text \<open>The keys of both bags in the order a \<open>Set\<close> keeps them: first insertion wins.\<close>

definition keys_set :: "string list \<Rightarrow> string list" where
  "keys_set ks = foldl (\<lambda>acc k. if k \<in> set acc then acc else acc @ [k]) [] ks"

text \<open>The body of \<open>keys.forEach\<close> in \<open>diffProps\<close>, for one key.\<close>

definition diffProps_key ::
  "props \<Rightarrow> props \<Rightarrow> nat \<Rightarrow> world \<Rightarrow> string \<Rightarrow> dom \<Rightarrow> error + dom" where
  "diffProps_key oldProps newProps signal st key element =
     (let oldValue = prop_get oldProps key; newValue = prop_get newProps key in
      if startsWith key ''on'' then
        (if truthy newValue then addEventListener (eventName key) newValue signal element st
         else Inr element)
      else if key = ''className'' then
        (if \<not> strict_eq oldValue newValue then setAttribute st ''class'' newValue element
         else Inr element)
      else if key = ''style'' then
        (if JSON_stringify oldValue \<noteq> JSON_stringify newValue
           then assignStyle st element newValue
         else Inr element)
      else if \<not> strict_eq oldValue newValue then
        (if key = ''checked'' then setProperty ''checked'' newValue element
         else if key = ''value'' then setProperty ''value'' newValue element
         else setAttribute st key newValue element)
      else Inr element)"

fun diffProps :: "vnode \<Rightarrow> vnode \<Rightarrow> dom \<Rightarrow> world \<Rightarrow> error + (vnode \<times> dom \<times> world)" where
  "diffProps (VElement tg ops cs c k) (VElement tg' nps cs' c' k') element st =
     (let keys = keys_set (map fst ops @ map fst nps);
          st1 = abort c st
      in case new_AbortController st1 of (c1, st2) \<Rightarrow>
           (case forEach (diffProps_key ops nps c1 st2) keys element of
              Inl e \<Rightarrow> Inl e
            | Inr element' \<Rightarrow> Inr (VElement tg nps cs c1 k, element', st2)))"
| "diffProps oldNode newNode element st = Inl BadCast"

subsection \<open>Primitives\<close>

definition set_nodeValue :: "dom \<Rightarrow> string \<Rightarrow> dom" where
  "set_nodeValue element s =
     (case element of Text i old \<Rightarrow> Text i s
      | Element i tg as sty ps ls cs \<Rightarrow> Element i tg as sty ps ls cs)"

fun diffPrimitive :: "vnode \<Rightarrow> vnode \<Rightarrow> dom \<Rightarrow> error + (vnode \<times> dom)" where
  "diffPrimitive (VPrimitive ov k) (VPrimitive nv k') element =
     (if \<not> strict_eq ov nv then Inr (VPrimitive nv k, set_nodeValue element (to_String nv))
      else Inr (VPrimitive ov k, element))"
| "diffPrimitive oldNode newNode element = Inl BadCast"

subsection \<open>Children\<close>

type_synonym keymap = "string \<rightharpoonup> nat"

text \<open>\<open>children.forEach((child, i) => child.key && map.set(child.key, i))\<close>.\<close>

fun key_map_from :: "nat \<Rightarrow> vnode list \<Rightarrow> keymap \<Rightarrow> keymap" where
  "key_map_from i [] m = m"
| "key_map_from i (child # cs) m =
     key_map_from (Suc i) cs (case truthy_key child of None \<Rightarrow> m | Some k \<Rightarrow> m(k \<mapsto> i))"

definition key_map :: "vnode list \<Rightarrow> keymap" where
  "key_map cs = key_map_from 0 cs Map.empty"

text \<open>\<open>xs.splice(i, 1)\<close>.\<close>

definition splice1 :: "nat \<Rightarrow> 'a list \<Rightarrow> 'a list" where
  "splice1 i xs = take i xs @ drop (Suc i) xs"

text \<open>
  The first loop of \<open>diffChildren\<close>: an old child whose key the new children do not
  have is taken out of the render target and of the old sequence; the others record
  their index.
\<close>

function remove_unmatched ::
  "keymap \<Rightarrow> nat \<Rightarrow> vnode list \<Rightarrow> keymap \<Rightarrow> dom \<Rightarrow> error + (vnode list \<times> keymap \<times> dom)" where
  "remove_unmatched newKeyMap i oldChildren oldKeyMap parentDOM =
     (if i < length oldChildren then
        (case truthy_key (oldChildren ! i) of
           None \<Rightarrow> remove_unmatched newKeyMap (Suc i) oldChildren oldKeyMap parentDOM
         | Some k \<Rightarrow>
             (if newKeyMap k = None then
                (case removeChild parentDOM (at (children_of parentDOM) i) of
                   Inl e \<Rightarrow> Inl e
                 | Inr parentDOM1 \<Rightarrow>
                     remove_unmatched newKeyMap i (splice1 i oldChildren) oldKeyMap parentDOM1)
              else remove_unmatched newKeyMap (Suc i) oldChildren (oldKeyMap(k \<mapsto> i)) parentDOM))
      else Inr (oldChildren, oldKeyMap, parentDOM))"
  by pat_completeness auto
termination
  by (relation "measure (\<lambda>(newKeyMap, i, oldChildren, oldKeyMap, parentDOM).
                           length oldChildren - i)")
     (auto simp: splice1_def)

definition needsReplacement :: "vnode \<Rightarrow> vnode \<Rightarrow> bool" where
  "needsReplacement oldChild newChild =
     (vnode_type oldChild \<noteq> vnode_type newChild
      \<or> (vnode_type oldChild = Html \<and> \<not> strict_eq (vnode_value oldChild) (vnode_value newChild))
      \<or> (vnode_type oldChild = Function
          \<and> \<not> strict_eq (vnode_value oldChild) (vnode_value newChild)))"

definition is_node :: "dom option \<Rightarrow> dom \<Rightarrow> bool" where
  "is_node x y = (case x of None \<Rightarrow> False | Some a \<Rightarrow> same_node a y)"

definition domChildSwap :: "dom \<Rightarrow> nat \<Rightarrow> nat \<Rightarrow> error + dom" where
  "domChildSwap parent destination from =
     (case at (children_of parent) from of
        None \<Rightarrow> Inl TypeError
      | Some fromElement \<Rightarrow>
          (case at (children_of parent) destination of
             None \<Rightarrow> Inl TypeError
           | Some destinationElement \<Rightarrow>
               (let fromNext = nextSibling (children_of parent) fromElement;
                    destNext = nextSibling (children_of parent) destinationElement
                in if is_node fromNext destinationElement
                     then insertBefore parent destinationElement (Some fromElement)
                   else if is_node destNext fromElement
                     then insertBefore parent fromElement (Some destinationElement)
                   else (case insertBefore parent fromElement destNext of
                           Inl e \<Rightarrow> Inl e
                         | Inr parent1 \<Rightarrow> insertBefore parent1 destinationElement fromNext))))"

text \<open>
  The render-target node at position \<open>i\<close> is updated where it is: reconciling it never
  changes which node it is.
\<close>

definition set_child :: "dom \<Rightarrow> nat \<Rightarrow> dom \<Rightarrow> dom" where
  "set_child parent i element = set_childNodes parent ((children_of parent)[i := element])"

text \<open>
  \<open>newChild.key && oldKeyMap.has(newChild.key)\<close> with
  \<open>oldKeyMap.get(newChild.key) !== i\<close>: the index the same-keyed old child is at.
\<close>

definition moved_from :: "keymap \<Rightarrow> vnode \<Rightarrow> nat \<Rightarrow> nat option" where
  "moved_from oldKeyMap newChild i =
     (case truthy_key newChild of
        None \<Rightarrow> None
      | Some k \<Rightarrow>
          (case oldKeyMap k of None \<Rightarrow> None | Some j \<Rightarrow> if j \<noteq> i then Some j else None))"

type_synonym differ = "vnode \<Rightarrow> vnode \<Rightarrow> dom \<Rightarrow> world \<Rightarrow> error + (vnode \<times> dom \<times> world)"

type_synonym renderer = "vnode \<Rightarrow> world \<Rightarrow> error + (vnode \<times> dom \<times> world)"

type_synonym loop_state = "vnode list \<times> keymap \<times> dom \<times> nat \<times> world"

text \<open>
  The body of the main loop of \<open>diffChildren\<close> at index \<open>i\<close>, on the old sequence, the
  old key map, the parent, the count of trailing removals and the world. \<open>D\<close> and \<open>R\<close>
  are \<open>diff\<close> and \<open>render\<close>.
\<close>

definition diffChildren_step ::
  "differ \<Rightarrow> renderer \<Rightarrow> vnode list \<Rightarrow> nat \<Rightarrow> loop_state \<Rightarrow> error + loop_state" where
  "diffChildren_step D R newChildren i s =
     (case s of (oldChildren, oldKeyMap, parentDOM, removedCount, st) \<Rightarrow>
        (case at newChildren i of
           None \<Rightarrow> Inr (oldChildren, oldKeyMap, parentDOM, removedCount + 1, st)
         | Some newChild \<Rightarrow>
             (case at oldChildren i of
                None \<Rightarrow>
                  (case R newChild st of
                     Inl e \<Rightarrow> Inl e
                   | Inr (newChild', newElement, st1) \<Rightarrow>
                       (case appendChild parentDOM newElement of
                          Inl e \<Rightarrow> Inl e
                        | Inr parentDOM1 \<Rightarrow>
                            Inr (oldChildren @ [newChild'], oldKeyMap, parentDOM1,
                                 removedCount, st1)))
              | Some oldChild \<Rightarrow>
                  (case moved_from oldKeyMap newChild i of
                     Some oldKeyedItem \<Rightarrow>
                       (let oldKeyMap1 =
                              (case truthy_key oldChild of
                                 None \<Rightarrow> oldKeyMap
                               | Some k \<Rightarrow> oldKeyMap(k \<mapsto> oldKeyedItem))
                        in case domChildSwap parentDOM i oldKeyedItem of
                             Inl e \<Rightarrow> Inl e
                           | Inr parentDOM1 \<Rightarrow>
                               (case at oldChildren oldKeyedItem of
                                  None \<Rightarrow> Inl TypeError
                                | Some other \<Rightarrow>
                                    (case at (children_of parentDOM1) i of
                                       None \<Rightarrow> Inl BadCast
                                     | Some element \<Rightarrow>
                                         (case D other newChild element st of
                                            Inl e \<Rightarrow> Inl e
                                          | Inr (other', element', st1) \<Rightarrow>
                                              Inr (oldChildren[i := other', oldKeyedItem := oldChild],
                                                   oldKeyMap1, set_child parentDOM1 i element',
                                                   removedCount, st1)))))
                   | None \<Rightarrow>
                       (let oldKeyMap1 =
                              (case truthy_key oldChild of
                                 None \<Rightarrow> oldKeyMap
                               | Some k \<Rightarrow> oldKeyMap(k := None))
                        in if needsReplacement oldChild newChild then
                             (case R newChild st of
                                Inl e \<Rightarrow> Inl e
                              | Inr (newChild', newElement, st1) \<Rightarrow>
                                  (case replaceChild parentDOM newElement
                                          (at (children_of parentDOM) i) of
                                     Inl e \<Rightarrow> Inl e
                                   | Inr parentDOM1 \<Rightarrow>
                                       Inr (oldChildren[i := newChild'], oldKeyMap1, parentDOM1,
                                            removedCount, st1)))
                           else
                             (case at (children_of parentDOM) i of
                                None \<Rightarrow> Inl BadCast
                              | Some element \<Rightarrow>
                                  (case D oldChild newChild element st of
                                     Inl e \<Rightarrow> Inl e
                                   | Inr (oldChild', element', st1) \<Rightarrow>
                                       Inr (oldChildren[i := oldChild'], oldKeyMap1,
                                            set_child parentDOM i element',
                                            removedCount, st1))))))))"

lemma diffChildren_step_bound:
  assumes "diffChildren_step D R newChildren i (oldChildren, oldKeyMap, parentDOM, rc, st)
             = Inr (oldChildren', oldKeyMap', parentDOM', rc', st')"
    and "i < max (length oldChildren) (length newChildren)"
  shows "max (length oldChildren') (length newChildren)
           = max (length oldChildren) (length newChildren)"
  using assms
  by (auto simp: diffChildren_step_def at_def Let_def
           split: if_splits option.splits sum.splits prod.splits)

function diffChildren_loop ::
  "differ \<Rightarrow> renderer \<Rightarrow> vnode list \<Rightarrow> nat \<Rightarrow> loop_state \<Rightarrow> error + loop_state" where
  "diffChildren_loop D R newChildren i (oldChildren, oldKeyMap, parentDOM, rc, st) =
     (if i < max (length oldChildren) (length newChildren) then
        (case diffChildren_step D R newChildren i (oldChildren, oldKeyMap, parentDOM, rc, st) of
           Inl e \<Rightarrow> Inl e
         | Inr s' \<Rightarrow> diffChildren_loop D R newChildren (Suc i) s')
      else Inr (oldChildren, oldKeyMap, parentDOM, rc, st))"
  by pat_completeness auto
termination
proof (relation "measure (\<lambda>(D, R, newChildren, i, oldChildren, oldKeyMap, parentDOM, rc, st).
                            max (length oldChildren) (length newChildren) - i)")
  show "wf (measure (\<lambda>(D, R, newChildren, i, oldChildren, oldKeyMap, parentDOM, rc, st).
                       max (length oldChildren) (length newChildren) - i))"
    by simp
next
  fix D :: differ and R :: renderer and newChildren i oldChildren
    and oldKeyMap :: keymap and parentDOM rc and st :: world and s' :: loop_state
  assume lt: "i < max (length oldChildren) (length newChildren)"
    and step: "diffChildren_step D R newChildren i (oldChildren, oldKeyMap, parentDOM, rc, st)
                 = Inr s'"
  obtain oc' km' p' rc' st' where s': "s' = (oc', km', p', rc', st')"
    by (cases s') auto
  have "max (length oc') (length newChildren) = max (length oldChildren) (length newChildren)"
    using diffChildren_step_bound [OF step [unfolded s'] lt] .
  then show "((D, R, newChildren, Suc i, s'), (D, R, newChildren, i, oldChildren, oldKeyMap,
                parentDOM, rc, st))
             \<in> measure (\<lambda>(D, R, newChildren, i, oldChildren, oldKeyMap, parentDOM, rc, st).
                           max (length oldChildren) (length newChildren) - i)"
    using lt by (simp add: s')
qed

declare remove_unmatched.simps [simp del] diffChildren_loop.simps [simp del]

definition lastChild :: "dom \<Rightarrow> dom option" where
  "lastChild p = (if children_of p = [] then None else Some (last (children_of p)))"

text \<open>The last loop: \<open>removeChild(lastChild)\<close> and \<open>pop()\<close>, \<open>removedCount\<close> times.\<close>

fun remove_trailing :: "nat \<Rightarrow> vnode list \<Rightarrow> dom \<Rightarrow> error + (vnode list \<times> dom)" where
  "remove_trailing 0 oldChildren parentDOM = Inr (oldChildren, parentDOM)"
| "remove_trailing (Suc n) oldChildren parentDOM =
     (case removeChild parentDOM (lastChild parentDOM) of
        Inl e \<Rightarrow> Inl e
      | Inr parentDOM1 \<Rightarrow> remove_trailing n (butlast oldChildren) parentDOM1)"

text \<open>\<open>parentDOM.textContent = ''\<close>.\<close>

definition clear_content :: "dom \<Rightarrow> dom" where
  "clear_content p =
     (case p of Text i s \<Rightarrow> Text i []
      | Element i tg as sty ps ls cs \<Rightarrow> Element i tg as sty ps ls [])"

text \<open>
  \<open>diffChildren\<close>. With no old children every new child is rendered, recorded and
  appended, which is the loop of \<open>render_children\<close>.
\<close>

definition diffChildren ::
  "differ \<Rightarrow> renderer \<Rightarrow> vnode list \<Rightarrow> vnode list \<Rightarrow> dom \<Rightarrow> world
     \<Rightarrow> error + (vnode list \<times> dom \<times> world)" where
  "diffChildren D R oldChildren newChildren parentDOM st =
     (if length oldChildren = 0 then render_children R newChildren parentDOM st
      else if length newChildren = 0 then Inr ([], clear_content parentDOM, st)
      else
        (let oldKeyMap = key_map oldChildren; newKeyMap = key_map newChildren in
         case remove_unmatched newKeyMap 0 oldChildren oldKeyMap parentDOM of
           Inl e \<Rightarrow> Inl e
         | Inr (oldChildren1, oldKeyMap1, parentDOM1) \<Rightarrow>
             (case diffChildren_loop D R newChildren 0
                     (oldChildren1, oldKeyMap1, parentDOM1, 0, st) of
                Inl e \<Rightarrow> Inl e
              | Inr (oldChildren2, oldKeyMap2, parentDOM2, removedCount, st2) \<Rightarrow>
                  (case remove_trailing removedCount oldChildren2 parentDOM2 of
                     Inl e \<Rightarrow> Inl e
                   | Inr (oldChildren3, parentDOM3) \<Rightarrow> Inr (oldChildren3, parentDOM3, st2)))))"

subsection \<open>Elements, components and the dispatch\<close>

definition diffElement ::
  "differ \<Rightarrow> renderer \<Rightarrow> vnode \<Rightarrow> vnode \<Rightarrow> dom \<Rightarrow> world \<Rightarrow> error + (vnode \<times> dom \<times> world)" where
  "diffElement D R oldNode newNode element st =
     (case diffProps oldNode newNode element st of
        Inl e \<Rightarrow> Inl e
      | Inr (oldNode1, element1, st1) \<Rightarrow>
          (case diffChildren D R (children oldNode1) (children newNode) element1 st1 of
             Inl e \<Rightarrow> Inl e
           | Inr (cs, element2, st2) \<Rightarrow>
               Inr (VElement (tag oldNode1) (vprops oldNode1) cs (controller oldNode1)
                      (vkey oldNode1), element2, st2)))"

fun diffFunction ::
  "comps \<Rightarrow> differ \<Rightarrow> vnode \<Rightarrow> vnode \<Rightarrow> dom \<Rightarrow> world \<Rightarrow> error + (vnode \<times> dom \<times> world)" where
  "diffFunction C D (VFunction f ops t k) (VFunction f' nps t' k') element st =
     (if truthy (prop_get ops ''lazy'') \<and> stringify_props ops = stringify_props nps
        then Inr (VFunction f ops t k, element, st)
      else
        (case invoke C f' nps st of
           Inl e \<Rightarrow> Inl e
         | Inr (newTopNode, st1) \<Rightarrow>
             (case t of
                None \<Rightarrow> Inl TypeError
              | Some oldTopNode \<Rightarrow>
                  (case D oldTopNode newTopNode element st1 of
                     Inl e \<Rightarrow> Inl e
                   | Inr (topNode1, element1, st2) \<Rightarrow>
                       Inr (VFunction f nps (Some topNode1) k, element1, st2)))))"
| "diffFunction C D oldNode newNode element st = Inl BadCast"

text \<open>\<open>diff\<close>, with the same bound on the depth of the recursion as \<open>render\<close>.\<close>

primrec diff ::
  "comps \<Rightarrow> nat \<Rightarrow> vnode \<Rightarrow> vnode \<Rightarrow> dom \<Rightarrow> world \<Rightarrow> error + (vnode \<times> dom \<times> world)" where
  "diff C 0 = (\<lambda>oldVNode newVNode element st. Inl OutOfFuel)"
| "diff C (Suc n) = (\<lambda>oldVNode newVNode element st.
     case vnode_type newVNode of
       Primitive \<Rightarrow>
         (case diffPrimitive oldVNode newVNode element of
            Inl e \<Rightarrow> Inl e
          | Inr (oldVNode1, element1) \<Rightarrow> Inr (oldVNode1, element1, st))
     | Html \<Rightarrow>
         (if vnode_type oldVNode = Html
            then diffElement (diff C n) (render C n) oldVNode newVNode element st
          else Inl BadCast)
     | Function \<Rightarrow> diffFunction C (diff C n) oldVNode newVNode element st)"

declare render.simps [simp del] diff.simps [simp del]

section \<open>The driver\<close>

text \<open>
  The document around the application: the nodes that come before the application's
  root in tree order (its container among them), the nodes that come after it, the
  focused node, and the node that is the active element when no other node has the
  focus (the body). The container given to \<open>attach\<close> is taken to be in the
  document.

  Two facts of the platform are part of the document: \<open>focusable\<close> tells which
  nodes take the focus when \<open>focus()\<close> is called on them, and \<open>keepsFocus\<close>
  tells, for a reconciled root, whether the changes that led to it left the focus where
  it was (a focused node that is taken out of the tree loses the focus, also when it is
  put back elsewhere).
\<close>

record document =
  preceding :: "dom list"
  following :: "dom list"
  activeElement :: "nat option"
  body :: "nat option"
  focusable :: "dom \<Rightarrow> bool"
  keepsFocus :: "dom \<Rightarrow> bool"

record ('m, 'msg) app =
  model :: 'm
  view :: "'m \<Rightarrow> jsx"
  update :: "'m \<Rightarrow> 'msg \<Rightarrow> 'm"
  previous :: "vnode option"
  previousElement :: "dom option"
  focusedElementId :: "string option"

fun preorder :: "dom \<Rightarrow> dom list" where
  "preorder (Text i s) = [Text i s]"
| "preorder (Element i tg as sty ps ls cs) =
     Element i tg as sty ps ls cs # concat (map preorder cs)"

definition document_nodes :: "document \<Rightarrow> dom option \<Rightarrow> dom list" where
  "document_nodes doc root =
     concat (map preorder (preceding doc))
     @ (case root of None \<Rightarrow> [] | Some r \<Rightarrow> preorder r)
     @ concat (map preorder (following doc))"

text \<open>The property \<open>id\<close> of a node: its \<open>id\<close> attribute, or the empty string.\<close>

definition id_of :: "dom \<Rightarrow> string" where
  "id_of node =
     (case node of Text i s \<Rightarrow> []
      | Element i tg as sty ps ls cs \<Rightarrow> (case map_of as ''id'' of None \<Rightarrow> [] | Some v \<Rightarrow> v))"

definition is_element :: "dom \<Rightarrow> bool" where
  "is_element node = (case node of Text i s \<Rightarrow> False | Element i tg as sty ps ls cs \<Rightarrow> True)"

definition getElementById :: "document \<Rightarrow> dom option \<Rightarrow> string \<Rightarrow> dom option" where
  "getElementById doc root ident =
     (if ident = [] then None
      else find (\<lambda>node. is_element node \<and> id_of node = ident) (document_nodes doc root))"

text \<open>\<open>document.activeElement.id\<close>, for the focused node \<open>a\<close>.\<close>

definition activeElement_id :: "document \<Rightarrow> dom option \<Rightarrow> nat \<Rightarrow> string" where
  "activeElement_id doc root a =
     (case find (\<lambda>node. nodeId node = a) (document_nodes doc root) of
        None \<Rightarrow> []
      | Some node \<Rightarrow> id_of node)"

text \<open>
  \<open>element.focus()\<close>: the element becomes the focused node if it can take the
  focus; otherwise nothing happens.
\<close>

definition focus :: "dom \<Rightarrow> document \<Rightarrow> document" where
  "focus element doc =
     (if focusable doc element then doc\<lparr>activeElement := Some (nodeId element)\<rparr> else doc)"

text \<open>
  The document once the application's tree has become \<open>root\<close>: a focused
  node that is no longer in the document, or that lost the focus on the way, has given
  the focus up, and the body is the active element.
\<close>

definition reconciled :: "document \<Rightarrow> dom \<Rightarrow> document" where
  "reconciled doc root =
     (case activeElement doc of
        None \<Rightarrow> doc
      | Some active \<Rightarrow>
          if active \<in> set (map nodeId (document_nodes doc (Some root))) \<and> keepsFocus doc root
            then doc
          else doc\<lparr>activeElement := body doc\<rparr>)"

definition renderView ::
  "comps \<Rightarrow> nat \<Rightarrow> ('m, 'msg) app \<Rightarrow> document \<Rightarrow> world
     \<Rightarrow> error + (('m, 'msg) app \<times> document \<times> world)" where
  "renderView C n a doc st =
     (case build (view a (model a)) st of
        Inl e \<Rightarrow> Inl e
      | Inr (currentNode, st1) \<Rightarrow>
          (case (previous a, previousElement a) of
             (Some prev, Some prevElement) \<Rightarrow>
               (case diff C n prev currentNode prevElement st1 of
                  Inl e \<Rightarrow> Inl e
                | Inr (prev1, prevElement1, st2) \<Rightarrow>
                    (let a1 = a\<lparr>previous := Some prev1, previousElement := Some prevElement1\<rparr>;
                         doc1 = reconciled doc prevElement1
                     in case focusedElementId a of
                          None \<Rightarrow> Inr (a1, doc1, st2)
                        | Some ident \<Rightarrow>
                            (if ident = [] then Inr (a1, doc1, st2)
                             else
                               (case getElementById doc1 (Some prevElement1) ident of
                                  None \<Rightarrow> Inr (a1, doc1, st2)
                                | Some element \<Rightarrow> Inr (a1, focus element doc1, st2)))))
           | _ \<Rightarrow>
               (case render C n currentNode st1 of
                  Inl e \<Rightarrow> Inl e
                | Inr (prev1, element, st2) \<Rightarrow>
                    Inr (a\<lparr>previous := Some prev1, previousElement := Some element\<rparr>,
                         reconciled doc element, st2))))"

definition attach ::
  "comps \<Rightarrow> nat \<Rightarrow> ('m, 'msg) app \<Rightarrow> document \<Rightarrow> world
     \<Rightarrow> error + (('m, 'msg) app \<times> document \<times> world)" where
  "attach C n a doc st = renderView C n a doc st"


section \<open>Concrete inputs\<close>

text \<open>
  The platform of the examples: an attribute name is accepted when it is not empty and
  holds no white space, no NUL and none of \<open>/\<close>, \<open>=\<close>, \<open>>\<close>, and the
  style object stores each declaration of the examples as it is written.
\<close>

definition html_name :: "string \<Rightarrow> bool" where
  "html_name name =
     (name \<noteq> []
      \<and> list_all (\<lambda>c. c \<notin> set [CHR 0x00, CHR 0x09, CHR 0x0A, CHR 0x0C, CHR 0x0D, CHR '' '',
                                 CHR ''/'', CHR ''='', CHR ''>'']) name)"

definition plain_style :: "string \<Rightarrow> jsval \<Rightarrow> props \<Rightarrow> error + props" where
  "plain_style key v sty = Inr (prop_set key v sty)"

text \<open>A world in which nothing has been created yet.\<close>

definition world0 :: world where
  "world0 = \<lparr>nextNode = 0, nextController = 0, aborted = (\<lambda>c. False), effects = [],
              validName = html_name, styleSet = plain_style\<rparr>"

text \<open>An input element with a \<open>ref\<close> property that points at a Ref object.\<close>

definition ref_input :: vnode where
  "ref_input =
     VElement ''input''
       [(''ref'', JObject 1 [(''current'', JNull), (''onMount'', JFun 7)])] [] 0 None"

text \<open>
  A lazy component that is mounted: its function turns the property \<open>value\<close> into the
  title of a span.
\<close>

definition world1 :: world where
  "world1 = \<lparr>nextNode = 1, nextController = 1, aborted = (\<lambda>c. False), effects = [],
              validName = html_name, styleSet = plain_style\<rparr>"

definition title_comp :: comps where
  "title_comp f ps = JsxElement ''span'' [(''title'', prop_get ps ''value'')] [] None"

definition lazy_props :: "int \<Rightarrow> props" where
  "lazy_props v = [(''lazy'', JBool True), (''value'', JNum v)]"

definition lazy_old :: vnode where
  "lazy_old = VFunction 1 (lazy_props 5)
                (Some (VElement ''span'' [(''title'', JNum 5)] [] 0 None)) None"

definition lazy_element :: dom where
  "lazy_element = Element 0 ''span'' [(''title'', ''5'')] [] [] [] []"

text \<open>The parts of a render-target node, with nothing to read on a text node.\<close>

definition listeners_of :: "dom \<Rightarrow> listener list" where
  "listeners_of node = (case node of Text i s \<Rightarrow> [] | Element i tg as sty ps ls cs \<Rightarrow> ls)"

definition style_of :: "dom \<Rightarrow> props" where
  "style_of node = (case node of Text i s \<Rightarrow> [] | Element i tg as sty ps ls cs \<Rightarrow> sty)"

definition attributes_of :: "dom \<Rightarrow> (string \<times> string) list" where
  "attributes_of node = (case node of Text i s \<Rightarrow> [] | Element i tg as sty ps ls cs \<Rightarrow> as)"

text \<open>
  The name that the pass hands to \<open>setAttribute\<close> for a key, and the name of the
  attribute that is written then: \<open>class\<close> for \<open>className\<close>, in lower case. A
  key is an attribute key when it is no handler and none of \<open>style\<close>,
  \<open>checked\<close> or \<open>value\<close>.
\<close>

definition attr_arg :: "string \<Rightarrow> string" where
  "attr_arg key = (if key = ''className'' then ''class'' else key)"

definition attr_name :: "string \<Rightarrow> string" where
  "attr_name key = toLowerCase (attr_arg key)"

definition attribute_key :: "string \<Rightarrow> bool" where
  "attribute_key key =
     (\<not> startsWith key ''on'' \<and> key \<noteq> ''style'' \<and> key \<noteq> ''checked'' \<and> key \<noteq> ''value'')"

text \<open>The keys that a pass handles after the key \<open>key\<close>.\<close>

definition later_keys :: "string \<Rightarrow> string list \<Rightarrow> string list" where
  "later_keys key ks = tl (dropWhile (\<lambda>x. x \<noteq> key) ks)"

text \<open>
  The style object takes each of these entries as it is written: none is an array
  index, and assigning one stores its value under its name and touches nothing else.
\<close>

definition as_written :: "world \<Rightarrow> (string \<times> jsval) list \<Rightarrow> bool" where
  "as_written st entries =
     list_all (\<lambda>(key, v). \<not> array_index key
                 \<and> (\<forall>sty. styleSet st key v sty = Inr (prop_set key v sty))) entries"

text \<open>The render-target node a reconciliation step returns, if it returns.\<close>

definition element_after :: "error + (vnode \<times> dom \<times> world) \<Rightarrow> dom option" where
  "element_after r = (case r of Inl e \<Rightarrow> None | Inr (n, element, st) \<Rightarrow> Some element)"

text \<open>A world in which one node and two controllers exist.\<close>

definition world2 :: world where
  "world2 = \<lparr>nextNode = 1, nextController = 2, aborted = (\<lambda>c. False), effects = [],
              validName = html_name, styleSet = plain_style\<rparr>"

text \<open>A button whose click handler changes and that gains a key handler.\<close>

definition button_old :: vnode where
  "button_old = VElement ''button'' [(''onClick'', JFun 1)] [] 0 None"

definition button_new :: vnode where
  "button_new = VElement ''button'' [(''onClick'', JFun 2), (''onKeyDown'', JFun 3)] [] 1 None"

definition button_element :: dom where
  "button_element = Element 0 ''button'' [] [] [] [Listener ''click'' (JFun 1) 0] []"

text \<open>An element whose style loses the declaration \<open>margin\<close> and changes \<open>color\<close>.\<close>

definition styled_old :: vnode where
  "styled_old =
     VElement ''div''
       [(''style'', JObject 1 [(''color'', JStr ''red''), (''margin'', JStr ''0px'')])] [] 0 None"

definition styled_new :: vnode where
  "styled_new = VElement ''div'' [(''style'', JObject 2 [(''color'', JStr ''blue'')])] [] 1 None"

definition styled_element :: dom where
  "styled_element =
     Element 0 ''div'' [] [(''color'', JStr ''red''), (''margin'', JStr ''0px'')] [] [] []"

text \<open>
  An application whose view shows an input with the identifier \<open>input\<close> and a
  span, in an order that each message reverses. It is mounted in a document with a body,
  in which inputs take the focus, and the input has the focus.
\<close>

definition swap_view :: "bool \<Rightarrow> jsx" where
  "swap_view moved =
     (if moved then
        JsxElement ''div'' []
          [ChildNode (JsxElement ''span'' [] [] None),
           ChildNode (JsxElement ''input'' [(''id'', JStr ''input'')] [] None)] None
      else
        JsxElement ''div'' []
          [ChildNode (JsxElement ''input'' [(''id'', JStr ''input'')] [] None),
           ChildNode (JsxElement ''span'' [] [] None)] None)"

definition swap_tree :: vnode where
  "swap_tree =
     VElement ''div'' []
       [VElement ''input'' [(''id'', JStr ''input'')] [] 0 None, VElement ''span'' [] [] 1 None]
       2 None"

definition swap_root :: dom where
  "swap_root =
     Element 0 ''div'' [] [] [] []
       [Element 1 ''input'' [(''id'', ''input'')] [] [] [] [], Element 2 ''span'' [] [] [] [] []]"

definition swap_app :: "(bool, unit) app" where
  "swap_app =
     \<lparr>model = False, view = swap_view, update = (\<lambda>m msg. \<not> m), previous = Some swap_tree,
      previousElement = Some swap_root, focusedElementId = None\<rparr>"

definition swap_doc :: document where
  "swap_doc =
     \<lparr>preceding = [Element 3 ''body'' [] [] [] [] []], following = [],
      activeElement = Some 1, body = Some 3,
      focusable = (\<lambda>node. case node of Text i s \<Rightarrow> False
                         | Element i tg as sty ps ls cs \<Rightarrow> tg = ''input''),
      keepsFocus = (\<lambda>root. True)\<rparr>"

definition world3 :: world where
  "world3 = \<lparr>nextNode = 4, nextController = 3, aborted = (\<lambda>c. False), effects = [],
              validName = html_name, styleSet = plain_style\<rparr>"





text \<open>Component functions for trees that hold no component.\<close>

definition no_comps :: comps where
  "no_comps f ps = JsxComponent f ps None"

text \<open>What a reconciliation of children leaves behind, if it returns.\<close>

definition children_ids_after :: "error + ('a \<times> dom \<times> world) \<Rightarrow> nat list option" where
  "children_ids_after r =
     (case r of Inl e \<Rightarrow> None | Inr (x, p, st) \<Rightarrow> Some (map nodeId (children_of p)))"

definition effects_after :: "error + ('a \<times> dom \<times> world) \<Rightarrow> effect list option" where
  "effects_after r = (case r of Inl e \<Rightarrow> None | Inr (x, p, st) \<Rightarrow> Some (effects st))"

definition aborted_after :: "error + ('a \<times> dom \<times> world) \<Rightarrow> nat \<Rightarrow> bool option" where
  "aborted_after r c = (case r of Inl e \<Rightarrow> None | Inr (x, p, st) \<Rightarrow> Some (aborted st c))"

text \<open>Two keyed children that change places, of different tags.\<close>

definition keyed_old :: "vnode list" where
  "keyed_old = [VElement ''div'' [] [] 0 (Some ''a''), VElement ''span'' [] [] 1 (Some ''b'')]"

definition keyed_new :: "vnode list" where
  "keyed_new = [VElement ''span'' [] [] 2 (Some ''b''), VElement ''div'' [] [] 3 (Some ''a'')]"

definition keyed_parent :: dom where
  "keyed_parent =
     Element 0 ''ul'' [] [] [] []
       [Element 1 ''div'' [] [] [] [] [], Element 2 ''span'' [] [] [] [] []]"

definition world4 :: world where
  "world4 = \<lparr>nextNode = 3, nextController = 4, aborted = (\<lambda>c. False), effects = [],
              validName = html_name, styleSet = plain_style\<rparr>"

text \<open>A child with a click handler, replaced by a child of another tag.\<close>

definition clicked_old :: "vnode list" where
  "clicked_old = [VElement ''div'' [(''onClick'', JFun 1)] [] 0 None]"

definition clicked_new :: "vnode list" where
  "clicked_new = [VElement ''span'' [] [] 1 None]"

definition clicked_parent :: dom where
  "clicked_parent =
     Element 0 ''ul'' [] [] [] []
       [Element 1 ''div'' [] [] [] [Listener ''click'' (JFun 1) 0] []]"

definition world5 :: world where
  "world5 = \<lparr>nextNode = 2, nextController = 2, aborted = (\<lambda>c. False), effects = [],
              validName = html_name, styleSet = plain_style\<rparr>"

text \<open>
  Three keyed list items, \<open>A\<close>, \<open>B\<close> and \<open>C\<close> with the keys 1, 2 and 3, that are
  mounted, and the same items in the order \<open>C\<close>, \<open>A\<close>, \<open>B\<close>.
\<close>

definition item :: "string \<Rightarrow> string \<Rightarrow> nat \<Rightarrow> vnode" where
  "item k label c = VElement ''li'' [] [VPrimitive (JStr label) None] c (Some k)"

definition item_node :: "nat \<Rightarrow> string \<Rightarrow> dom" where
  "item_node i label = Element i ''li'' [] [] [] [] [Text (Suc i) label]"

definition rotation_old :: "vnode list" where
  "rotation_old = [item ''1'' ''A'' 1, item ''2'' ''B'' 2, item ''3'' ''C'' 3]"

definition rotation_new :: "vnode list" where
  "rotation_new = [item ''3'' ''C'' 4, item ''1'' ''A'' 5, item ''2'' ''B'' 6]"

definition rotation_parent :: dom where
  "rotation_parent =
     Element 0 ''ul'' [] [] [] [] [item_node 1 ''A'', item_node 3 ''B'', item_node 5 ''C'']"

definition world7 :: world where
  "world7 = \<lparr>nextNode = 7, nextController = 7, aborted = (\<lambda>c. False), effects = [],
              validName = html_name, styleSet = plain_style\<rparr>"

section \<open>Copies of a tree and what a render target shows\<close>

text \<open>
  What can be read off a render target apart from its listeners: which nodes it is
  made of and in which order, their tags, attributes, style declarations, properties
  and text.
\<close>

fun strip :: "dom \<Rightarrow> dom" where
  "strip (Text i s) = Text i s"
| "strip (Element i tg as sty ps ls cs) = Element i tg as sty ps [] (map strip cs)"

text \<open>Two objects with the same fields: equal in structure, whichever objects they are.\<close>

fun same_fields :: "jsval \<Rightarrow> jsval \<Rightarrow> bool" where
  "same_fields (JObject i fs) (JObject j gs) = (fs = gs)"
| "same_fields a b = False"

text \<open>
  An entry of an element's properties and its copy: the same key with the same value,
  which for a function or an object means the same reference; a \<open>style\<close> object
  may be another object with the same fields.
\<close>

definition value_copy :: "string \<times> jsval \<Rightarrow> string \<times> jsval \<Rightarrow> bool" where
  "value_copy a b =
     (fst a = fst b \<and> (snd a = snd b \<or> (fst a = ''style'' \<and> same_fields (snd a) (snd b))))"

definition props_copy :: "props \<Rightarrow> props \<Rightarrow> bool" where
  "props_copy ps ps' = list_all2 value_copy ps ps'"

text \<open>
  A node and a copy of it with equal values: the same kind, value, tag or function
  reference and key, position by position. Controllers and \<open>topNode\<close> are not
  compared: a copy is a description that has not been rendered.
\<close>

fun copy_of :: "vnode \<Rightarrow> vnode \<Rightarrow> bool" where
  "copy_of (VPrimitive v k) (VPrimitive v' k') = (v = v' \<and> k = k')"
| "copy_of (VElement tg ps cs c k) (VElement tg' ps' cs' c' k') =
     (tg = tg' \<and> props_copy ps ps' \<and> k = k' \<and> list_all2 copy_of cs cs')"
| "copy_of (VFunction f ps t k) (VFunction f' ps' t' k') = (f = f' \<and> ps = ps' \<and> k = k')"
| "copy_of a b = False"

text \<open>
  Keys are unique among siblings, in every children sequence of a mounted tree and of
  the nodes its components returned.
\<close>

fun keys_ok :: "vnode \<Rightarrow> bool" where
  "keys_ok (VPrimitive v k) = True"
| "keys_ok (VElement tg ps cs c k) =
     (distinct (List.map_filter truthy_key cs) \<and> list_all keys_ok cs)"
| "keys_ok (VFunction f ps t k) = (case t of None \<Rightarrow> True | Some tn \<Rightarrow> keys_ok tn)"

text \<open>A node of the tree was rendered to a node of the render target.\<close>

definition rendered :: "comps \<Rightarrow> nat \<Rightarrow> vnode \<Rightarrow> vnode \<Rightarrow> dom \<Rightarrow> bool" where
  "rendered K n T T1 R = (\<exists>st st1. render K n T st = Inr (T1, R, st1))"

text \<open>The values \<open>addEventListener\<close> takes as a listener.\<close>

definition callable :: "jsval \<Rightarrow> bool" where
  "callable v = (case v of JFun f \<Rightarrow> True | JObject j fs \<Rightarrow> True | JArray j xs \<Rightarrow> True
                 | _ \<Rightarrow> False)"

text \<open>
  A list with a class, a style, a click handler and two keyed children, one of them a
  component; and a copy of it with a style object and controllers of its own.
\<close>

definition mounted_tree :: vnode where
  "mounted_tree =
     VElement ''ul''
       [(''className'', JStr ''list''), (''style'', JObject 1 [(''color'', JStr ''red'')]),
        (''onClick'', JFun 3)]
       [VElement ''li'' [(''title'', JNum 1)] [VPrimitive (JStr ''a'') None] 1 (Some ''x''),
        VFunction 1 [(''value'', JNum 5)] None (Some ''y'')]
       0 None"

definition mounted_copy :: vnode where
  "mounted_copy =
     VElement ''ul''
       [(''className'', JStr ''list''), (''style'', JObject 2 [(''color'', JStr ''red'')]),
        (''onClick'', JFun 3)]
       [VElement ''li'' [(''title'', JNum 1)] [VPrimitive (JStr ''a'') None] 5 (Some ''x''),
        VFunction 1 [(''value'', JNum 5)] None (Some ''y'')]
       4 None"

definition world8 :: world where
  "world8 = \<lparr>nextNode = 0, nextController = 7, aborted = (\<lambda>c. False), effects = [],
              validName = html_name, styleSet = plain_style\<rparr>"

text \<open>What \<open>mounted_tree\<close> renders to in \<open>world8\<close>.\<close>

definition mounted_root :: dom where
  "mounted_root =
     Element 0 ''ul'' [(''class'', ''list'')] [(''color'', JStr ''red'')] []
       [Listener ''click'' (JFun 3) 0]
       [Element 1 ''li'' [(''title'', ''1'')] [] [] [] [Text 2 ''a''],
        Element 3 ''span'' [(''title'', ''5'')] [] [] [] []]"

text \<open>Two siblings of different tags with the same key, and what they render to.\<close>

definition twins :: vnode where
  "twins =
     VElement ''ul'' []
       [VElement ''div'' [] [] 1 (Some ''x''), VElement ''span'' [] [] 2 (Some ''x'')] 0 None"

definition twins_root :: dom where
  "twins_root =
     Element 0 ''ul'' [] [] [] []
       [Element 1 ''div'' [] [] [] [] [], Element 2 ''span'' [] [] [] [] []]"

section \<open>The factory\<close>

text \<open>
  Claim C9. The factory fails, with the error of an invalid node, exactly when its first
  argument is neither a string nor a function, as \<open>typeof\<close> tells. For a function
  it returns a component node that stores the whole bag, the \<open>children\<close> entry
  included, and has no \<open>topNode\<close>, in an unchanged world. For a string it returns
  an element node whose controller is the one created by this call, whose signal is not
  aborted; no render-target node is created and no effect is recorded, since only the
  controller counter and the flag of the new controller change.
\<close>

theorem construct_by_kind:
  "(parseJSXToEldoraNode type ps key st = Inl InvalidJSXNode)
     = (typeof type \<noteq> ''string'' \<and> typeof type \<noteq> ''function'')
   \<and> (\<exists>e. parseJSXToEldoraNode type ps key st = Inl e)
       = (typeof type \<noteq> ''string'' \<and> typeof type \<noteq> ''function'')
   \<and> parseJSXToEldoraNode (JFun f) ps key st = Inr (VFunction f (bag ps) None key, st)
   \<and> bag ps = rest ps @ children_entry (children_prop ps)
   \<and> parseJSXToEldoraNode (JStr s) ps key st =
       Inr (VElement s (rest ps) (normalizeChildren (children_prop ps)) (nextController st) key,
            st\<lparr>nextController := Suc (nextController st),
               aborted := (aborted st)(nextController st := False)\<rparr>)
   \<and> \<not> aborted (snd (new_AbortController st)) (fst (new_AbortController st))"
  by (cases type) (simp_all add: parseJSXToEldoraNode_def bag_def new_AbortController_def)

theorem construct_by_kind_witness:
  "parseJSXToEldoraNode (JNum 3) \<lparr>children_prop = NoChildren, rest = []\<rparr> None world0
     = Inl InvalidJSXNode
   \<and> parseJSXToEldoraNode (JObject 1 []) \<lparr>children_prop = NoChildren, rest = []\<rparr> None world0
     = Inl InvalidJSXNode
   \<and> parseJSXToEldoraNode (JFun 7)
        \<lparr>children_prop = OneChild (ChildStr ''hi''), rest = [(''lazy'', JBool True)]\<rparr>
        (Some ''k'') world0
     = Inr (VFunction 7 [(''lazy'', JBool True), (''children'', JStr ''hi'')] None (Some ''k''),
            world0)
   \<and> parseJSXToEldoraNode (JStr ''div'')
        \<lparr>children_prop = OneChild (ChildStr ''hi''), rest = [(''id'', JStr ''a'')]\<rparr> None world0
     = Inr (VElement ''div'' [(''id'', JStr ''a'')] [VPrimitive (JStr ''hi'') None] 0 None,
            world0\<lparr>nextController := 1, aborted := (aborted world0)(0 := False)\<rparr>)"
  using construct_by_kind [where type = "JNum 3" and key = None and st = world0
      and ps = "\<lparr>children_prop = NoChildren, rest = []\<rparr>"]
    construct_by_kind [where type = "JObject 1 []" and key = None and st = world0
      and ps = "\<lparr>children_prop = NoChildren, rest = []\<rparr>"]
    construct_by_kind [where f = 7 and key = "Some ''k''" and st = world0
      and ps = "\<lparr>children_prop = OneChild (ChildStr ''hi''), rest = [(''lazy'', JBool True)]\<rparr>"]
    construct_by_kind [where s = "''div''" and key = None and st = world0
      and ps = "\<lparr>children_prop = OneChild (ChildStr ''hi''), rest = [(''id'', JStr ''a'')]\<rparr>"]
  by (simp add: normalizeChildren_def wrap_child_def world0_def children_entry_def
        child_value_def)

section \<open>Rendering an element with a ref\<close>

text \<open>
  Claim C8. \<open>render\<close> has no case for the key \<open>ref\<close>: the Ref object goes through the
  default branch and becomes the attribute \<open>ref\<close> with the value
  \<open>[object Object]\<close>. The node comes back with the Ref object as it was
  (\<open>current\<close> still null) and no function is called: the callback \<open>onMount\<close>
  never runs.
\<close>

theorem render_ignores_ref:
  "render C (Suc 0) ref_input world0 =
     Inr (ref_input,
          Element 0 ''input'' [(''ref'', ''[object Object]'')] [] [] [] [],
          world0\<lparr>nextNode := 1\<rparr>)
   \<and> effects (world0\<lparr>nextNode := 1\<rparr>) = []"
  by (simp add: render.simps ref_input_def world0_def createElement_def render_prop_def
        startsWith_def html_name_def toLowerCase_def toLowerCase_char_def)

section \<open>Component calls\<close>

lemma eldoraJSX_frame:
  "eldoraJSX type ps key st = Inr (n, st') \<Longrightarrow>
     effects st' = effects st \<and> nextNode st' = nextNode st"
  by (cases type)
     (auto simp: eldoraJSX_def parseJSXToEldoraNode_def new_AbortController_def)

lemma build_frame:
  "build j st = Inr (n, st') \<Longrightarrow> effects st' = effects st \<and> nextNode st' = nextNode st"
  "build_children kids st = Inr (cs, st') \<Longrightarrow>
     effects st' = effects st \<and> nextNode st' = nextNode st"
proof (induction j st and kids st arbitrary: n st' and cs st' rule: build_build_children.induct)
  case (1 tg ps kids key st)
  show ?case
  proof (cases "build_children kids st")
    case (Inl e)
    with "1.prems" show ?thesis by simp
  next
    case (Inr r)
    obtain cs1 st1 where r: "r = (cs1, st1)" by (cases r) auto
    from "1.prems" Inr r
    have "eldoraJSX (JStr tg) \<lparr>children_prop = children_arg_of cs1, rest = ps\<rparr> key st1
            = Inr (n, st')"
      by simp
    from eldoraJSX_frame [OF this] "1.IH" [of cs1 st1] Inr r show ?thesis by simp
  qed
next
  case (2 f ps key st)
  then show ?case by (simp add: eldoraJSX_frame)
next
  case (3 st)
  then show ?case by simp
next
  case (4 j kids st)
  show ?case
  proof (cases "build j st")
    case (Inl e)
    with "4.prems" show ?thesis by simp
  next
    case (Inr r)
    obtain n1 st1 where r: "r = (n1, st1)" by (cases r) auto
    show ?thesis
    proof (cases "build_children kids st1")
      case (Inl e)
      with "4.prems" Inr r show ?thesis by simp
    next
      case Inr2: (Inr r2)
      obtain cs2 st2 where r2: "r2 = (cs2, st2)" by (cases r2) auto
      from "4.prems" Inr r Inr2 r2 have "st' = st2" by simp
      with "4.IH"(1) [of n1 st1] "4.IH"(2) [of "(n1, st1)" n1 st1 cs2 st2] Inr r Inr2 r2
      show ?thesis by simp
    qed
  qed
next
  case (5 s kids st)
  show ?case
  proof (cases "build_children kids st")
    case (Inl e)
    with "5.prems" show ?thesis by simp
  next
    case (Inr r)
    obtain cs1 st1 where r: "r = (cs1, st1)" by (cases r) auto
    from "5.prems" Inr r have "st' = st1" by simp
    with "5.IH" [of cs1 st1] Inr r show ?thesis by simp
  qed
next
  case (6 i kids st)
  show ?case
  proof (cases "build_children kids st")
    case (Inl e)
    with "6.prems" show ?thesis by simp
  next
    case (Inr r)
    obtain cs1 st1 where r: "r = (cs1, st1)" by (cases r) auto
    from "6.prems" Inr r have "st' = st1" by simp
    with "6.IH" [of cs1 st1] Inr r show ?thesis by simp
  qed
qed

lemma invoke_effects:
  "invoke C f ps st = Inr (n, st') \<Longrightarrow>
     effects st' = effects st @ [Call f ps] \<and> nextNode st' = nextNode st"
  using build_frame(1) [of "C f ps" "st\<lparr>effects := effects st @ [Call f ps]\<rparr>" n st']
  by (simp add: invoke_def)

lemma build_total:
  "\<exists>n st'. build j st = Inr (n, st')"
  "\<exists>cs st'. build_children kids st = Inr (cs, st')"
proof (induction j st and kids st rule: build_build_children.induct)
  case (1 tg ps kids key st)
  then obtain cs st1 where "build_children kids st = Inr (cs, st1)" by blast
  then show ?case
    by (simp add: eldoraJSX_def parseJSXToEldoraNode_def new_AbortController_def)
next
  case (2 f ps key st)
  then show ?case by (simp add: eldoraJSX_def parseJSXToEldoraNode_def)
next
  case (3 st)
  then show ?case by simp
next
  case (4 j kids st)
  from "4.IH"(1) obtain n st1 where b: "build j st = Inr (n, st1)" by blast
  from "4.IH"(2) [of "(n, st1)" n st1] b obtain cs st2 where
    "build_children kids st1 = Inr (cs, st2)" by auto
  with b show ?case by simp
next
  case (5 s kids st)
  then obtain cs st1 where "build_children kids st = Inr (cs, st1)" by blast
  then show ?case by simp
next
  case (6 i kids st)
  then obtain cs st1 where "build_children kids st = Inr (cs, st1)" by blast
  then show ?case by simp
qed

lemma invoke_total: "\<exists>n st'. invoke C f ps st = Inr (n, st')"
  by (simp add: invoke_def build_total)

lemma diff_Suc_function:
  "diff C (Suc n) oldVNode (VFunction f ps t k) element st
     = diffFunction C (diff C n) oldVNode (VFunction f ps t k) element st"
  by (simp add: diff.simps)

lemma diff_Suc_element:
  "diff C (Suc n) oldVNode (VElement tg ps cs c k) element st
     = (if vnode_type oldVNode = Html
          then diffElement (diff C n) (render C n) oldVNode (VElement tg ps cs c k) element st
        else Inl BadCast)"
  by (simp add: diff.simps)

lemma diff_Suc_primitive:
  "diff C (Suc n) oldVNode (VPrimitive v k) element st
     = (case diffPrimitive oldVNode (VPrimitive v k) element of
          Inl e \<Rightarrow> Inl e
        | Inr (oldVNode1, element1) \<Rightarrow> Inr (oldVNode1, element1, st))"
  by (simp add: diff.simps)

lemmas eval_simps =
  render.simps diff.simps world0_def world1_def title_comp_def lazy_props_def lazy_old_def lazy_element_def
  stringify_props_def json_quote_def json_char_def show_int_def prop_get_def
  invoke_def eldoraJSX_def parseJSXToEldoraNode_def new_AbortController_def
  children_arg_of_def normalizeChildren_def wrap_child_def diffElement_def abort_def keys_set_def
  diffProps_key_def startsWith_def diffChildren_def
  html_name_def plain_style_def toLowerCase_def toLowerCase_char_def array_index_def
  decimal_def bag_def children_entry_def child_value_def

section \<open>Lazy components\<close>



section \<open>Property passes\<close>

lemma forEach_append:
  "forEach f (xs @ ys) e = (case forEach f xs e of Inl err \<Rightarrow> Inl err | Inr e1 \<Rightarrow> forEach f ys e1)"
  by (induction xs arbitrary: e) (auto split: sum.splits)

lemma forEach_invariant:
  assumes "forEach f ks e = Inr e'" and "P e"
    and "\<And>k e1 e2. k \<in> set ks \<Longrightarrow> f k e1 = Inr e2 \<Longrightarrow> P e1 \<Longrightarrow> P e2"
  shows "P e'"
  using assms
proof (induction ks arbitrary: e)
  case Nil
  then show ?case by simp
next
  case (Cons k ks)
  from Cons.prems(1) obtain e1 where k: "f k e = Inr e1" and rest: "forEach f ks e1 = Inr e'"
    by (cases "f k e") auto
  have "P e1" using Cons.prems(3) [of k e e1] k Cons.prems(2) by simp
  show ?case
  proof (rule Cons.IH [OF rest \<open>P e1\<close>])
    fix k' a b
    assume "k' \<in> set ks" "f k' a = Inr b" "P a"
    then show "P b" using Cons.prems(3) [of k' a b] by simp
  qed
qed

lemma forEach_at_key:
  assumes "forEach f ks e = Inr e'" and "k \<in> set ks" and "distinct ks"
  shows "\<exists>ks1 ks2 e1 e2. ks = ks1 @ k # ks2 \<and> k \<notin> set ks1 \<and> k \<notin> set ks2
           \<and> forEach f ks1 e = Inr e1 \<and> f k e1 = Inr e2 \<and> forEach f ks2 e2 = Inr e'"
proof -
  from assms(2) obtain ks1 ks2 where split: "ks = ks1 @ k # ks2"
    by (auto simp: in_set_conv_decomp)
  with assms(3) have notin: "k \<notin> set ks1" "k \<notin> set ks2" by auto
  from assms(1) split obtain e1 where r1: "forEach f ks1 e = Inr e1"
    and r2: "forEach f (k # ks2) e1 = Inr e'"
    by (cases "forEach f ks1 e") (auto simp: forEach_append)
  from r2 obtain e2 where "f k e1 = Inr e2" "forEach f ks2 e2 = Inr e'"
    by (cases "f k e1") auto
  with split notin r1 show ?thesis by blast
qed

lemma keys_set_acc:
  "distinct acc \<Longrightarrow>
     distinct (foldl (\<lambda>acc k. if k \<in> set acc then acc else acc @ [k]) acc ks)
     \<and> set (foldl (\<lambda>acc k. if k \<in> set acc then acc else acc @ [k]) acc ks) = set acc \<union> set ks"
  by (induction ks arbitrary: acc) auto

lemma keys_set_distinct: "distinct (keys_set ks)"
  using keys_set_acc [of "[]" ks] by (simp add: keys_set_def)

lemma keys_set_set: "set (keys_set ks) = set ks"
  using keys_set_acc [of "[]" ks] by (simp add: keys_set_def)

lemma diffProps_result:
  assumes "diffProps (VElement tg ops cs c k) (VElement tg' nps cs' c' k') element st
             = Inr (oldNode1, element1, st1)"
  shows "forEach (diffProps_key ops nps (nextController st)
                    (snd (new_AbortController (abort c st))))
           (keys_set (map fst ops @ map fst nps)) element = Inr element1
         \<and> oldNode1 = VElement tg nps cs (nextController st) k
         \<and> st1 = snd (new_AbortController (abort c st))"
  using assms
  by (auto simp: Let_def new_AbortController_def abort_def split: sum.splits)





lemma map_of_prop_set:
  "map_of (prop_set k v t) d = (if d = k then Some v else map_of t d)"
  by (induction t) auto






lemma strict_eq_refl: "strict_eq a a"
  by (cases a) auto

lemma liveListeners_filter: "liveListeners st e = filter (live st) (listeners_of e)"
  by (cases e) (auto simp: liveListeners_def listeners_of_def)

lemma listeners_step:
  assumes "diffProps_key ops nps sig st key e = Inr e'"
  shows "listeners_of e' = listeners_of e
         \<or> listeners_of e' = listeners_of e @ [Listener (eventName key) (prop_get nps key) sig]"
proof (cases e)
  case (Text i s)
  with assms show ?thesis
    by (auto simp: diffProps_key_def Let_def listeners_of_def split: if_splits)
next
  case (Element i tg as sty ps ls cs)
  show ?thesis
  proof (cases "startsWith key ''on''")
    case True
    with assms Element show ?thesis
      by (auto simp: diffProps_key_def Let_def listeners_of_def split: if_splits)
  next
    case False
    with assms Element show ?thesis
      by (auto simp: diffProps_key_def Let_def listeners_of_def split: if_splits sum.splits)
  qed
qed

lemma listeners_bound:
  assumes step: "diffProps_key ops nps sig st key e = Inr e'"
    and on: "startsWith key ''on''" and handler: "truthy (prop_get nps key)"
    and fresh: "\<not> aborted st sig"
    and owned: "\<forall>l \<in> set (listeners_of e). l_signal l = sig \<or> aborted st (l_signal l)"
  shows "\<exists>l \<in> set (listeners_of e'). l_type l = eventName key
           \<and> strict_eq (l_callback l) (prop_get nps key) \<and> l_signal l = sig"
proof (cases e)
  case (Text i s)
  with step on handler show ?thesis
    by (simp add: diffProps_key_def Let_def)
next
  case (Element i tg as sty ps ls cs)
  let ?cb = "prop_get nps key"
  from step on handler Element
  have add: "addEventListener (eventName key) ?cb sig (Element i tg as sty ps ls cs) st = Inr e'"
    by (simp add: diffProps_key_def Let_def)
  from handler have defined: "?cb \<noteq> JUndefined" "?cb \<noteq> JNull"
    by auto
  show ?thesis
  proof (cases "\<exists>l \<in> set ls. live st l \<and> l_type l = eventName key \<and> strict_eq (l_callback l) ?cb")
    case True
    then obtain l where l: "l \<in> set ls" "live st l" "l_type l = eventName key"
      "strict_eq (l_callback l) ?cb"
      by blast
    from owned Element l(1,2) have "l_signal l = sig"
      by (auto simp: listeners_of_def live_def)
    moreover from add True defined fresh have "e' = Element i tg as sty ps ls cs"
      by (simp split: if_splits)
    ultimately show ?thesis using l by (auto simp: listeners_of_def)
  next
    case False
    with add defined fresh have "e' = Element i tg as sty ps (ls @ [Listener (eventName key) ?cb sig]) cs"
      by (auto split: if_splits)
    then show ?thesis by (auto simp: listeners_of_def strict_eq_refl)
  qed
qed

text \<open>
  Claim C5. Take a property pass over an element node whose controller was created
  earlier and whose element has live listeners under that controller's signal only.
  When the pass returns, the one effect it has recorded is the abort of that controller;
  the node holds the controller created right after, whose signal is not aborted; the
  per-key rules have run in that world, where the old signal is aborted already; every
  handler key of the new properties with a truthy handler has a live listener of the
  derived event name and that handler under the new signal; and no listener was taken
  off the element: the old ones are all there, none of them live, followed by those
  added under the new signal.
\<close>

theorem listener_token_replaced:
  assumes run: "diffProps (VElement tg ops cs c k) (VElement tg' nps cs' c' k') element st
                  = Inr (oldNode1, element1, st1)"
    and earlier: "c < nextController st"
    and known: "\<forall>l \<in> set (listeners_of element). l_signal l < nextController st"
    and owned: "\<forall>l \<in> set (liveListeners st element). l_signal l = c"
  shows "effects st1 = effects st @ [Abort c]
       \<and> controller oldNode1 = nextController st
       \<and> aborted st1 c
       \<and> \<not> aborted st1 (controller oldNode1)
       \<and> forEach (diffProps_key ops nps (controller oldNode1) st1)
            (keys_set (map fst ops @ map fst nps)) element = Inr element1
       \<and> (\<forall>key \<in> fst ` set nps.
             startsWith key ''on'' \<and> truthy (prop_get nps key) \<longrightarrow>
             (\<exists>l \<in> set (liveListeners st1 element1).
                l_type l = eventName key \<and> strict_eq (l_callback l) (prop_get nps key)
                \<and> l_signal l = controller oldNode1))
       \<and> (\<exists>added. listeners_of element1 = listeners_of element @ added
                   \<and> (\<forall>l \<in> set added. l_signal l = controller oldNode1))
       \<and> (\<forall>l \<in> set (listeners_of element). \<not> live st1 l)"
proof -
  let ?c1 = "nextController st"
  let ?f = "diffProps_key ops nps ?c1 st1"
  let ?ks = "keys_set (map fst ops @ map fst nps)"
  from diffProps_result [OF run]
  have st1: "st1 = snd (new_AbortController (abort c st))"
    and node: "oldNode1 = VElement tg nps cs ?c1 k"
    and loop: "forEach ?f ?ks element = Inr element1"
    by simp_all
  from st1 have eff: "effects st1 = effects st @ [Abort c]"
    by (simp add: new_AbortController_def abort_def)
  from st1 earlier have gone: "aborted st1 c"
    by (simp add: new_AbortController_def abort_def)
  from st1 have fresh: "\<not> aborted st1 ?c1"
    by (simp add: new_AbortController_def abort_def)
  have dead: "\<forall>l \<in> set (listeners_of element). \<not> live st1 l"
  proof
    fix l
    assume l: "l \<in> set (listeners_of element)"
    show "\<not> live st1 l"
    proof (cases "live st l")
      case True
      with l owned have "l_signal l = c" by (simp add: liveListeners_filter)
      with gone show ?thesis by (simp add: live_def)
    next
      case False
      with l known st1 show ?thesis
        by (auto simp: live_def new_AbortController_def abort_def)
    qed
  qed
  have ext: "\<exists>added. listeners_of b = listeners_of a @ added \<and> (\<forall>l \<in> set added. l_signal l = ?c1)"
    if "forEach ?f ks a = Inr b" for ks a b
  proof (rule forEach_invariant [OF that,
        where P = "\<lambda>e. \<exists>added. listeners_of e = listeners_of a @ added
                               \<and> (\<forall>l \<in> set added. l_signal l = ?c1)"])
    show "\<exists>added. listeners_of a = listeners_of a @ added \<and> (\<forall>l \<in> set added. l_signal l = ?c1)"
      by simp
  next
    fix key x y
    assume step: "?f key x = Inr y"
      and "\<exists>added. listeners_of x = listeners_of a @ added \<and> (\<forall>l \<in> set added. l_signal l = ?c1)"
    then obtain added where x: "listeners_of x = listeners_of a @ added"
      "\<forall>l \<in> set added. l_signal l = ?c1"
      by blast
    from listeners_step [OF step]
    show "\<exists>added. listeners_of y = listeners_of a @ added \<and> (\<forall>l \<in> set added. l_signal l = ?c1)"
    proof
      assume "listeners_of y = listeners_of x"
      with x show ?thesis by auto
    next
      assume "listeners_of y = listeners_of x @ [Listener (eventName key) (prop_get nps key) ?c1]"
      with x have "listeners_of y = listeners_of a @ (added @ [Listener (eventName key) (prop_get nps key) ?c1])"
        "\<forall>l \<in> set (added @ [Listener (eventName key) (prop_get nps key) ?c1]). l_signal l = ?c1"
        by auto
      then show ?thesis by blast
    qed
  qed
  have bound: "\<exists>l \<in> set (liveListeners st1 element1).
                l_type l = eventName key \<and> strict_eq (l_callback l) (prop_get nps key)
                \<and> l_signal l = ?c1"
    if key: "key \<in> fst ` set nps" and on: "startsWith key ''on''"
      and handler: "truthy (prop_get nps key)" for key
  proof -
    from key have "key \<in> set ?ks" by (auto simp: keys_set_set)
    from forEach_at_key [OF loop this keys_set_distinct]
    obtain ks1 ks2 e1 e2 where r1: "forEach ?f ks1 element = Inr e1"
      and r2: "?f key e1 = Inr e2" and r3: "forEach ?f ks2 e2 = Inr element1"
      by blast
    from ext [OF r1] obtain added where e1: "listeners_of e1 = listeners_of element @ added"
      "\<forall>l \<in> set added. l_signal l = ?c1"
      by blast
    with dead have "\<forall>l \<in> set (listeners_of e1). l_signal l = ?c1 \<or> aborted st1 (l_signal l)"
      by (auto simp: live_def)
    from listeners_bound [OF r2 on handler fresh this]
    obtain l where l: "l \<in> set (listeners_of e2)" "l_type l = eventName key"
      "strict_eq (l_callback l) (prop_get nps key)" "l_signal l = ?c1"
      by blast
    from ext [OF r3] l(1) have "l \<in> set (listeners_of element1)" by auto
    with l(4) fresh have "l \<in> set (liveListeners st1 element1)"
      by (simp add: liveListeners_filter live_def)
    with l show ?thesis by blast
  qed
  from node have ctrl: "controller oldNode1 = ?c1" by simp
  show ?thesis
    unfolding ctrl
    using eff gone fresh loop bound ext [OF loop] dead by blast
qed

lemma strict_eq_undefined: "strict_eq v JUndefined = (v = JUndefined)"
  by (cases v) auto

lemma attributes_other_key:
  assumes "diffProps_key ops nps sig st key e = Inr e'"
    and "attribute_key key \<Longrightarrow>
           attr_name key \<noteq> a \<or> strict_eq (prop_get ops key) (prop_get nps key)"
  shows "map_of (attributes_of e') a = map_of (attributes_of e) a"
proof (cases e)
  case (Text i s)
  with assms(1) show ?thesis
    by (auto simp: diffProps_key_def Let_def attributes_of_def split: if_splits)
next
  case (Element i tg as sty ps ls cs)
  show ?thesis
  proof (cases "attribute_key key")
    case True
    with assms Element show ?thesis
      by (auto simp: diffProps_key_def Let_def attributes_of_def attribute_key_def attr_name_def
            attr_arg_def map_of_prop_set split: if_splits)
  next
    case False
    with assms(1) Element show ?thesis
      by (auto simp: diffProps_key_def Let_def attributes_of_def attribute_key_def
            split: if_splits sum.splits)
  qed
qed

lemma later_keys_split:
  "key \<notin> set ks1 \<Longrightarrow> later_keys key (ks1 @ key # ks2) = ks2"
  by (induction ks1) (auto simp: later_keys_def)

lemma attributes_key:
  assumes "diffProps_key ops nps sig st key e = Inr e'"
    and "attribute_key key"
    and "\<not> strict_eq (prop_get ops key) (prop_get nps key)"
  shows "setAttribute st (attr_arg key) (prop_get nps key) e = Inr e'
         \<and> map_of (attributes_of e') (attr_name key) = Some (to_String (prop_get nps key))"
proof (cases e)
  case (Text i s)
  with assms show ?thesis
    by (auto simp: diffProps_key_def Let_def attribute_key_def split: if_splits)
next
  case (Element i tg as sty ps ls cs)
  with assms show ?thesis
    by (auto simp: diffProps_key_def Let_def attributes_of_def attribute_key_def attr_name_def
          attr_arg_def map_of_prop_set split: if_splits)
qed

text \<open>
  Claim C10, amended. Take a property pass that returns and a key that is
  \<open>className\<close> or a generic attribute, present in the old properties with a value
  other than \<open>undefined\<close> and absent from the new ones. The comparison finds old and
  new different, and the pass, when it comes to the key, calls \<open>setAttribute\<close> with
  \<open>undefined\<close>: the attribute of that name (in lower case, \<open>class\<close> for
  \<open>className\<close>) then holds the string \<open>undefined\<close>. It still holds it after
  the pass when no key that the pass handles later writes the same attribute, that is,
  when every later attribute key of the same attribute name has equal old and new
  values.
\<close>

theorem removed_attribute_written_undefined:
  assumes run: "diffProps (VElement tg ops cs c k) (VElement tg' nps cs' c' k') element st
                  = Inr (oldNode1, element1, st1)"
    and old: "key \<in> fst ` set ops" and new: "key \<notin> fst ` set nps"
    and kind: "attribute_key key"
    and defined: "prop_get ops key \<noteq> JUndefined"
  shows "prop_get nps key = JUndefined
       \<and> \<not> strict_eq (prop_get ops key) (prop_get nps key)
       \<and> (\<exists>ks1 ks2 e1 e2.
             keys_set (map fst ops @ map fst nps) = ks1 @ key # ks2
             \<and> forEach (diffProps_key ops nps (controller oldNode1) st1) ks1 element = Inr e1
             \<and> diffProps_key ops nps (controller oldNode1) st1 key e1 = Inr e2
             \<and> setAttribute st1 (attr_arg key) JUndefined e1 = Inr e2
             \<and> map_of (attributes_of e2) (attr_name key) = Some ''undefined''
             \<and> forEach (diffProps_key ops nps (controller oldNode1) st1) ks2 e2 = Inr element1)
       \<and> ((\<forall>key' \<in> set (later_keys key (keys_set (map fst ops @ map fst nps))).
              attribute_key key' \<and> attr_name key' = attr_name key
                \<longrightarrow> strict_eq (prop_get ops key') (prop_get nps key'))
            \<longrightarrow> map_of (attributes_of element1) (attr_name key) = Some ''undefined'')"
proof -
  let ?c1 = "nextController st"
  let ?f = "diffProps_key ops nps ?c1 st1"
  let ?ks = "keys_set (map fst ops @ map fst nps)"
  from diffProps_result [OF run]
  have node: "oldNode1 = VElement tg nps cs ?c1 k"
    and loop: "forEach ?f ?ks element = Inr element1"
    by simp_all
  from new have "map_of nps key = None"
    by (simp add: map_of_eq_None_iff)
  then have undef: "prop_get nps key = JUndefined"
    by (simp add: prop_get_def)
  with defined have differ: "\<not> strict_eq (prop_get ops key) (prop_get nps key)"
    by (simp add: strict_eq_undefined)
  from old have "key \<in> set ?ks" by (auto simp: keys_set_set)
  from forEach_at_key [OF loop this keys_set_distinct]
  obtain ks1 ks2 e1 e2 where split: "?ks = ks1 @ key # ks2"
    and n1: "key \<notin> set ks1"
    and r1: "forEach ?f ks1 element = Inr e1"
    and r2: "?f key e1 = Inr e2" and r3: "forEach ?f ks2 e2 = Inr element1"
    by blast
  from attributes_key [OF r2 kind differ] undef
  have written: "setAttribute st1 (attr_arg key) JUndefined e1 = Inr e2"
    and at_key: "map_of (attributes_of e2) (attr_name key) = Some ''undefined''"
    by simp_all
  from node have ctrl: "controller oldNode1 = ?c1" by simp
  have kept: "map_of (attributes_of element1) (attr_name key) = Some ''undefined''"
    if later: "\<forall>key' \<in> set (later_keys key ?ks).
                 attribute_key key' \<and> attr_name key' = attr_name key
                   \<longrightarrow> strict_eq (prop_get ops key') (prop_get nps key')"
  proof -
    from split n1 have lk: "later_keys key ?ks = ks2"
      by (simp add: later_keys_split)
    have "map_of (attributes_of element1) (attr_name key)
            = map_of (attributes_of e2) (attr_name key)"
    proof (rule forEach_invariant [OF r3,
          where P = "\<lambda>e. map_of (attributes_of e) (attr_name key)
                            = map_of (attributes_of e2) (attr_name key)"])
      show "map_of (attributes_of e2) (attr_name key) = map_of (attributes_of e2) (attr_name key)"
        by simp
    next
      fix key' a b
      assume in2: "key' \<in> set ks2" and step: "?f key' a = Inr b"
        and a: "map_of (attributes_of a) (attr_name key)
                  = map_of (attributes_of e2) (attr_name key)"
      from later lk in2
      have "attribute_key key' \<Longrightarrow>
              attr_name key' \<noteq> attr_name key
              \<or> strict_eq (prop_get ops key') (prop_get nps key')"
        by blast
      from attributes_other_key [OF step this] a
      show "map_of (attributes_of b) (attr_name key)
              = map_of (attributes_of e2) (attr_name key)"
        by simp
    qed
    with at_key show ?thesis by simp
  qed
  have part: "\<exists>ks1 ks2 e1 e2.
             ?ks = ks1 @ key # ks2
             \<and> forEach (diffProps_key ops nps (controller oldNode1) st1) ks1 element = Inr e1
             \<and> diffProps_key ops nps (controller oldNode1) st1 key e1 = Inr e2
             \<and> setAttribute st1 (attr_arg key) JUndefined e1 = Inr e2
             \<and> map_of (attributes_of e2) (attr_name key) = Some ''undefined''
             \<and> forEach (diffProps_key ops nps (controller oldNode1) st1) ks2 e2 = Inr element1"
    unfolding ctrl using split r1 r2 written at_key r3 by blast
  from undef differ part kept show ?thesis
    by blast
qed

lemmas eval_simps2 = eval_simps world2_def element_after_def attr_name_def attr_arg_def
  attribute_key_def eventName_def toLowerCase_def toLowerCase_char_def liveListeners_def
  live_def listeners_of_def style_of_def attributes_of_def Object_assign_def html_name_def
  plain_style_def array_index_def decimal_def later_keys_def as_written_def

text \<open>
  Claim C10 as stated fails on three inputs. With \<open>className\<close> in the old
  properties only and \<open>class\<close> in the new ones, the pass writes \<open>undefined\<close> and
  then the new class: the attribute ends as \<open>b\<close>. The same happens with two keys
  that differ in case only, which name one attribute of an element. With a title that
  is present in the old properties with the value \<open>undefined\<close>, old and new compare
  equal and nothing is written.
\<close>

theorem removed_attribute_counterexample:
  "''className'' \<in> fst ` set [(''className'', JStr ''a'')]
   \<and> ''className'' \<notin> fst ` set [(''class'', JStr ''b'')]
   \<and> attribute_key ''className''
   \<and> element_after
        (diffProps (VElement ''div'' [(''className'', JStr ''a'')] [] 0 None)
           (VElement ''div'' [(''class'', JStr ''b'')] [] 1 None)
           (Element 0 ''div'' [(''class'', ''a'')] [] [] [] []) world2)
       = Some (Element 0 ''div'' [(''class'', ''b'')] [] [] [] [])
   \<and> ''data-Foo'' \<in> fst ` set [(''data-Foo'', JStr ''a'')]
   \<and> ''data-Foo'' \<notin> fst ` set [(''data-foo'', JStr ''b'')]
   \<and> attribute_key ''data-Foo''
   \<and> element_after
        (diffProps (VElement ''div'' [(''data-Foo'', JStr ''a'')] [] 0 None)
           (VElement ''div'' [(''data-foo'', JStr ''b'')] [] 1 None)
           (Element 0 ''div'' [(''data-foo'', ''a'')] [] [] [] []) world2)
       = Some (Element 0 ''div'' [(''data-foo'', ''b'')] [] [] [] [])
   \<and> ''title'' \<in> fst ` set [(''title'', JUndefined)]
   \<and> ''title'' \<notin> fst ` set ([] :: props)
   \<and> attribute_key ''title''
   \<and> strict_eq (prop_get [(''title'', JUndefined)] ''title'') (prop_get [] ''title'')
   \<and> element_after
        (diffProps (VElement ''div'' [(''title'', JUndefined)] [] 0 None)
           (VElement ''div'' [] [] 1 None)
           (Element 0 ''div'' [] [] [] [] []) world2)
       = Some (Element 0 ''div'' [] [] [] [] [])"
  by (simp add: eval_simps2)

theorem removed_attribute_witness:
  "\<exists>n e s. diffProps (VElement ''div'' [(''Title'', JStr ''hello''), (''id'', JStr ''x'')] [] 0 None)
              (VElement ''div'' [(''id'', JStr ''x'')] [] 1 None)
              (Element 0 ''div'' [(''title'', ''hello''), (''id'', ''x'')] [] [] [] []) world2
            = Inr (n, e, s)
          \<and> e = Element 0 ''div'' [(''title'', ''undefined''), (''id'', ''x'')] [] [] [] []
          \<and> attr_name ''Title'' = ''title''
          \<and> map_of (attributes_of e) ''title'' = Some ''undefined''"
proof -
  let ?ops = "[(''Title'', JStr ''hello''), (''id'', JStr ''x'')]"
  let ?nps = "[(''id'', JStr ''x'')]"
  have "\<exists>n s. diffProps (VElement ''div'' ?ops [] 0 None) (VElement ''div'' ?nps [] 1 None)
              (Element 0 ''div'' [(''title'', ''hello''), (''id'', ''x'')] [] [] [] []) world2
            = Inr (n, Element 0 ''div'' [(''title'', ''undefined''), (''id'', ''x'')] [] [] [] [], s)"
    by (simp add: eval_simps2)
  then obtain n s where run:
    "diffProps (VElement ''div'' ?ops [] 0 None) (VElement ''div'' ?nps [] 1 None)
              (Element 0 ''div'' [(''title'', ''hello''), (''id'', ''x'')] [] [] [] []) world2
            = Inr (n, Element 0 ''div'' [(''title'', ''undefined''), (''id'', ''x'')] [] [] [] [], s)"
    by blast
  have old: "''Title'' \<in> fst ` set ?ops" and new: "''Title'' \<notin> fst ` set ?nps"
    and kind: "attribute_key ''Title''" and defined: "prop_get ?ops ''Title'' \<noteq> JUndefined"
    and name: "attr_name ''Title'' = ''title''"
    by (simp_all add: eval_simps2)
  have later: "\<forall>key' \<in> set (later_keys ''Title'' (keys_set (map fst ?ops @ map fst ?nps))).
                 attribute_key key' \<and> attr_name key' = attr_name ''Title''
                   \<longrightarrow> strict_eq (prop_get ?ops key') (prop_get ?nps key')"
    by (simp add: eval_simps2)
  from removed_attribute_written_undefined [OF run old new kind defined] later name
  have "map_of (attributes_of
                  (Element 0 ''div'' [(''title'', ''undefined''), (''id'', ''x'')] [] [] [] []))
          ''title'' = Some ''undefined''"
    by simp
  with run name show ?thesis by blast
qed

lemmas eval_simps3 = eval_simps2 button_old_def button_new_def button_element_def
  styled_old_def styled_new_def styled_element_def

theorem listener_token_replaced_witness:
  "\<exists>n e s. diffProps button_old button_new button_element world2 = Inr (n, e, s)
           \<and> effects s = effects world2 @ [Abort 0]
           \<and> controller n = 2
           \<and> aborted s 0
           \<and> liveListeners s e = [Listener ''click'' (JFun 2) 2, Listener ''keydown'' (JFun 3) 2]"
proof -
  have "\<exists>n e s. diffProps button_old button_new button_element world2 = Inr (n, e, s)
          \<and> controller n = 2
          \<and> liveListeners s e = [Listener ''click'' (JFun 2) 2, Listener ''keydown'' (JFun 3) 2]"
    by (simp add: eval_simps3)
  then obtain n e s where
    run: "diffProps (VElement ''button'' [(''onClick'', JFun 1)] [] 0 None)
            (VElement ''button'' [(''onClick'', JFun 2), (''onKeyDown'', JFun 3)] [] 1 None)
            button_element world2 = Inr (n, e, s)"
    and obs: "controller n = 2"
      "liveListeners s e = [Listener ''click'' (JFun 2) 2, Listener ''keydown'' (JFun 3) 2]"
    unfolding button_old_def button_new_def by blast
  have earlier: "0 < nextController world2"
    by (simp add: world2_def)
  have known: "\<forall>l \<in> set (listeners_of button_element). l_signal l < nextController world2"
    by (simp add: eval_simps3)
  have owned: "\<forall>l \<in> set (liveListeners world2 button_element). l_signal l = 0"
    by (simp add: eval_simps3)
  from listener_token_replaced [OF run earlier known owned]
  have "effects s = effects world2 @ [Abort 0]" "aborted s 0"
    by simp_all
  with run obs show ?thesis
    unfolding button_old_def button_new_def by blast
qed


section \<open>Focus across a dispatch\<close>


lemmas driver_simps = eval_simps swap_view_def swap_tree_def swap_root_def swap_app_def
  swap_doc_def world3_def no_comps_def activeElement_id_def document_nodes_def id_of_def
  reconciled_def focus_def
  getElementById_def is_element_def moved_from_def diffChildren_step_def at_def
  createElement_def createTextNode_def render_prop_def
  needsReplacement_def replaceChild_def children_of_def set_childNodes_def set_child_def
  same_node_def removeChild_def appendChild_def key_map_def truthy_key_def
  remove_unmatched.simps diffChildren_loop.simps




lemmas children_simps = driver_simps children_ids_after_def effects_after_def aborted_after_def
  keyed_old_def keyed_new_def keyed_parent_def world4_def clicked_old_def clicked_new_def
  clicked_parent_def world5_def domChildSwap_def nextSibling_def is_node_def insertBefore_def
  lastChild_def live_def

section \<open>Replacement of a child\<close>

text \<open>
  Claim C4 as stated fails on two inputs. Where two keyed children of different tags
  change places, the old and the new child at position 0 differ in tag, and yet no node
  is created: the node at position 0 is the node of the same-keyed old child, moved. And
  where an element with a click handler is replaced by an element of another tag, the
  render-target node is replaced by a new one, but no controller is aborted: the signal
  of the old element is not aborted afterwards.
\<close>

theorem replacement_counterexample:
  "needsReplacement (keyed_old ! 0) (keyed_new ! 0)
   \<and> children_ids_after
        (diffChildren (diff no_comps (Suc 0)) (render no_comps (Suc 0))
           keyed_old keyed_new keyed_parent world4) = Some [2, 1]
   \<and> nextNode world4 = 3
   \<and> needsReplacement (clicked_old ! 0) (clicked_new ! 0)
   \<and> children_ids_after
        (diffChildren (diff no_comps (Suc 0)) (render no_comps (Suc 0))
           clicked_old clicked_new clicked_parent world5) = Some [2]
   \<and> effects_after
        (diffChildren (diff no_comps (Suc 0)) (render no_comps (Suc 0))
           clicked_old clicked_new clicked_parent world5) = Some []
   \<and> aborted_after
        (diffChildren (diff no_comps (Suc 0)) (render no_comps (Suc 0))
           clicked_old clicked_new clicked_parent world5) 0 = Some False"
  by (simp add: children_simps)

section \<open>The identity of render-target nodes\<close>

lemma nodeId_setAttribute: "setAttribute st name v e = Inr e' \<Longrightarrow> nodeId e' = nodeId e"
  by (cases e) (auto split: if_splits)

lemma nodeId_assignStyle: "assignStyle st e v = Inr e' \<Longrightarrow> nodeId e' = nodeId e"
  by (cases e) (auto split: sum.splits)

lemma nodeId_setProperty: "setProperty name v e = Inr e' \<Longrightarrow> nodeId e' = nodeId e"
  by (cases e) auto

lemma nodeId_addEventListener:
  "addEventListener ty cb sig e st = Inr e' \<Longrightarrow> nodeId e' = nodeId e"
  by (cases e) (auto split: if_splits)

lemma nodeId_appendChild: "appendChild p x = Inr p' \<Longrightarrow> nodeId p' = nodeId p"
  by (cases p) (auto simp: appendChild_def)

lemma nodeId_set_childNodes: "nodeId (set_childNodes p cs) = nodeId p"
  by (cases p) (auto simp: set_childNodes_def)

lemma nodeId_render_prop:
  "render_prop sig st entry e = Inr e' \<Longrightarrow> nodeId e' = nodeId e"
  by (cases entry)
     (auto simp: render_prop_def nodeId_setAttribute nodeId_assignStyle nodeId_setProperty
        nodeId_addEventListener split: if_splits)

lemma nodeId_forEach:
  assumes "forEach f xs e = Inr e'"
    and "\<And>x a b. f x a = Inr b \<Longrightarrow> nodeId b = nodeId a"
  shows "nodeId e' = nodeId e"
  by (rule forEach_invariant [OF assms(1), where P = "\<lambda>x. nodeId x = nodeId e"])
     (simp_all add: assms(2))

lemma nodeId_render_children:
  "render_children R cs e st = Inr (cs', e', st') \<Longrightarrow> nodeId e' = nodeId e"
proof (induction cs arbitrary: e st cs')
  case Nil
  then show ?case by simp
next
  case (Cons child cs)
  from Cons.prems obtain child1 node st1 where r: "R child st = Inr (child1, node, st1)"
    by (cases "R child st") auto
  from Cons.prems r obtain e1 where a: "appendChild e node = Inr e1"
    by (cases "appendChild e node") auto
  from Cons.prems r a obtain cs1 where rest: "render_children R cs e1 st1 = Inr (cs1, e', st')"
    by (cases "render_children R cs e1 st1") auto
  from Cons.IH [OF rest] nodeId_appendChild [OF a] show ?case by simp
qed

lemma render_nodeId:
  "render C n node st = Inr (node', element, st') \<Longrightarrow> nodeId element = nextNode st"
proof (induction n arbitrary: node st node' element st')
  case 0
  then show ?case by (simp add: render.simps)
next
  case (Suc n)
  show ?case
  proof (cases node)
    case (VPrimitive v k)
    with Suc.prems show ?thesis by (auto simp: render.simps createTextNode_def)
  next
    case (VElement tg ps cs c k)
    let ?e0 = "Element (nextNode st) tg [] [] [] [] []"
    let ?st1 = "st\<lparr>nextNode := Suc (nextNode st)\<rparr>"
    from Suc.prems VElement obtain e1 where
      p: "forEach (render_prop c ?st1) ps ?e0 = Inr e1"
      by (cases "forEach (render_prop c ?st1) ps ?e0") (auto simp: render.simps createElement_def)
    from Suc.prems VElement p obtain cs1 where
      r: "render_children (render C n) cs e1 ?st1 = Inr (cs1, element, st')"
      by (cases "render_children (render C n) cs e1 ?st1") (auto simp: render.simps createElement_def)
    from nodeId_forEach [OF p] have "nodeId e1 = nextNode st"
      by (simp add: nodeId_render_prop)
    with nodeId_render_children [OF r] show ?thesis by simp
  next
    case (VFunction f ps t k)
    from Suc.prems VFunction obtain tn st1 where i: "invoke C f ps st = Inr (tn, st1)"
      by (cases "invoke C f ps st") (auto simp: render.simps)
    from Suc.prems VFunction i obtain tn2 where r: "render C n tn st1 = Inr (tn2, element, st')"
      by (cases "render C n tn st1") (auto simp: render.simps)
    from Suc.IH [OF r] invoke_effects [OF i] show ?thesis by simp
  qed
qed

lemma remove_node_absent:
  "nodeId x \<notin> nodeId ` set cs \<Longrightarrow> remove_node x cs = cs"
  by (induction cs) (auto simp: same_node_def)

lemma replace_node_at:
  "distinct (map nodeId cs) \<Longrightarrow> i < length cs \<Longrightarrow> replace_node x (cs ! i) cs = Some (cs[i := x])"
proof (induction cs arbitrary: i)
  case Nil
  then show ?case by simp
next
  case (Cons c cs)
  show ?case
  proof (cases i)
    case 0
    then show ?thesis by (simp add: same_node_def)
  next
    case (Suc j)
    with Cons.prems have "nodeId c \<noteq> nodeId (cs ! j)" by auto
    with Cons Suc show ?thesis by (simp add: same_node_def)
  qed
qed

lemma children_of_set_childNodes:
  "children_of p \<noteq> [] \<Longrightarrow> children_of (set_childNodes p cs) = cs"
  by (cases p) (auto simp: children_of_def set_childNodes_def)

text \<open>
  Claim C4, amended. Take a position of the main loop at which both children exist, the
  parent has a child node, the new child has no key that the old key map holds at
  another index, and the old and the new child differ in kind, or are elements of
  different tags, or components of different functions. The children of the parent are
  distinct nodes created earlier. Then the step renders the new child and fails only if
  rendering fails; when rendering returns, so does the step: the rendered node, which
  did not exist before, stands at the position in the parent, in place of the node that
  stood there, and the old sequence holds the rendered new child at the position.
\<close>

theorem replacement_at_position:
  assumes new: "at newChildren i = Some newChild" and old: "at oldChildren i = Some oldChild"
    and positional: "moved_from oldKeyMap newChild i = None"
    and differ: "needsReplacement oldChild newChild"
    and inside: "i < length (children_of parentDOM)"
    and ids: "distinct (map nodeId (children_of parentDOM))"
    and below: "\<forall>c \<in> set (children_of parentDOM). nodeId c < nextNode st"
  shows "diffChildren_step D (render C n) newChildren i
           (oldChildren, oldKeyMap, parentDOM, rc, st)
         = (case render C n newChild st of
              Inl e \<Rightarrow> Inl e
            | Inr (newChild', newElement, st1) \<Rightarrow>
                Inr (oldChildren[i := newChild'],
                     (case truthy_key oldChild of
                        None \<Rightarrow> oldKeyMap
                      | Some k \<Rightarrow> oldKeyMap(k := None)),
                     set_childNodes parentDOM ((children_of parentDOM)[i := newElement]),
                     rc, st1))
       \<and> (\<forall>newChild' newElement st1.
             render C n newChild st = Inr (newChild', newElement, st1) \<longrightarrow>
               nodeId newElement = nextNode st
               \<and> nodeId newElement \<notin> nodeId ` set (children_of parentDOM))"
proof (intro conjI allI impI)
  show "diffChildren_step D (render C n) newChildren i
           (oldChildren, oldKeyMap, parentDOM, rc, st)
         = (case render C n newChild st of
              Inl e \<Rightarrow> Inl e
            | Inr (newChild', newElement, st1) \<Rightarrow>
                Inr (oldChildren[i := newChild'],
                     (case truthy_key oldChild of
                        None \<Rightarrow> oldKeyMap
                      | Some k \<Rightarrow> oldKeyMap(k := None)),
                     set_childNodes parentDOM ((children_of parentDOM)[i := newElement]),
                     rc, st1))"
  proof (cases "render C n newChild st")
    case (Inl e)
    with new old positional differ show ?thesis
      by (simp add: diffChildren_step_def Let_def)
  next
    case (Inr r)
    obtain newChild' newElement st1 where r: "r = (newChild', newElement, st1)"
      by (cases r) auto
    from Inr r have run: "render C n newChild st = Inr (newChild', newElement, st1)"
      by simp
    from render_nodeId [OF run] below
    have "nodeId newElement \<notin> nodeId ` set (children_of parentDOM)"
      by auto
    then have keep: "remove_node newElement (children_of parentDOM) = children_of parentDOM"
      by (rule remove_node_absent)
    from inside keep replace_node_at [OF ids inside, of newElement]
    have "replaceChild parentDOM newElement (at (children_of parentDOM) i)
            = Inr (set_childNodes parentDOM ((children_of parentDOM)[i := newElement]))"
      by (simp add: replaceChild_def at_def)
    with new old positional differ run show ?thesis
      by (simp add: diffChildren_step_def Let_def)
  qed
next
  fix newChild' newElement st1
  assume run: "render C n newChild st = Inr (newChild', newElement, st1)"
  from render_nodeId [OF run] show "nodeId newElement = nextNode st" .
  with below show "nodeId newElement \<notin> nodeId ` set (children_of parentDOM)"
    by auto
qed

theorem replacement_at_position_witness:
  "\<exists>km' st'.
     diffChildren_step (diff no_comps (Suc 0)) (render no_comps (Suc 0)) clicked_new 0
       (clicked_old, Map.empty, clicked_parent, 0, world5)
     = Inr (clicked_new, km',
            set_childNodes clicked_parent [Element 2 ''span'' [] [] [] [] []], 0, st')
     \<and> nextNode world5 = 2 \<and> map nodeId (children_of clicked_parent) = [1]"
proof -
  have new: "at clicked_new 0 = Some (VElement ''span'' [] [] 1 None)"
    and old: "at clicked_old 0 = Some (VElement ''div'' [(''onClick'', JFun 1)] [] 0 None)"
    and positional: "moved_from Map.empty (VElement ''span'' [] [] 1 None) 0 = None"
    and differ: "needsReplacement (VElement ''div'' [(''onClick'', JFun 1)] [] 0 None)
                   (VElement ''span'' [] [] 1 None)"
    and inside: "0 < length (children_of clicked_parent)"
    and ids: "distinct (map nodeId (children_of clicked_parent))"
    and below: "\<forall>c \<in> set (children_of clicked_parent). nodeId c < nextNode world5"
    by (simp_all add: children_simps)
  have r: "\<exists>s. render no_comps (Suc 0) (VElement ''span'' [] [] 1 None) world5
          = Inr (VElement ''span'' [] [] 1 None, Element 2 ''span'' [] [] [] [] [], s)"
    by (simp add: children_simps)
  have more: "nextNode world5 = 2" "map nodeId (children_of clicked_parent) = [1]"
    "clicked_old[0 := VElement ''span'' [] [] 1 None] = clicked_new"
    "(children_of clicked_parent)[0 := Element 2 ''span'' [] [] [] [] []]
       = [Element 2 ''span'' [] [] [] [] []]"
    by (simp_all add: children_simps)
  from replacement_at_position [where D = "diff no_comps (Suc 0)" and C = no_comps
        and n = "Suc 0" and rc = 0, OF new old positional differ inside ids below,
      THEN conjunct1] r more
  show ?thesis by auto
qed


section \<open>Keyed children\<close>

lemma key_map_three:
  assumes "truthy_key A = Some k1" "truthy_key B = Some k2" "truthy_key C = Some k3"
  shows "key_map [A, B, C] = [k1 \<mapsto> 0, k2 \<mapsto> Suc 0, k3 \<mapsto> Suc (Suc 0)]"
  using assms by (simp add: key_map_def)

lemma remove_unmatched_three:
  assumes keys: "truthy_key A = Some k1" "truthy_key B = Some k2" "truthy_key C = Some k3"
    and kept: "newKeyMap k1 = Some n1" "newKeyMap k2 = Some n2" "newKeyMap k3 = Some n3"
  shows "remove_unmatched newKeyMap 0 [A, B, C] km p
           = Inr ([A, B, C], km(k1 \<mapsto> 0, k2 \<mapsto> Suc 0, k3 \<mapsto> Suc (Suc 0)), p)"
proof -
  have 3: "remove_unmatched newKeyMap (Suc (Suc (Suc 0))) [A, B, C] m p = Inr ([A, B, C], m, p)"
    for m
    by (subst remove_unmatched.simps) simp
  have 2: "remove_unmatched newKeyMap (Suc (Suc 0)) [A, B, C] m p
             = Inr ([A, B, C], m(k3 \<mapsto> Suc (Suc 0)), p)" for m
    using keys kept 3 by (subst remove_unmatched.simps) simp
  have 1: "remove_unmatched newKeyMap (Suc 0) [A, B, C] m p
             = Inr ([A, B, C], m(k2 \<mapsto> Suc 0, k3 \<mapsto> Suc (Suc 0)), p)" for m
    using keys kept 2 by (subst remove_unmatched.simps) simp
  show ?thesis
    using keys kept 1 by (subst remove_unmatched.simps) simp
qed

lemma loop_unfold:
  "i < max (length oldChildren) (length newChildren) \<Longrightarrow>
     diffChildren_loop D R newChildren i (oldChildren, km, p, rc, st)
       = (case diffChildren_step D R newChildren i (oldChildren, km, p, rc, st) of
            Inl e \<Rightarrow> Inl e
          | Inr s' \<Rightarrow> diffChildren_loop D R newChildren (Suc i) s')"
  by (subst diffChildren_loop.simps) simp

lemma loop_end:
  "\<not> i < max (length oldChildren) (length newChildren) \<Longrightarrow>
     diffChildren_loop D R newChildren i (oldChildren, km, p, rc, st)
       = Inr (oldChildren, km, p, rc, st)"
  by (subst diffChildren_loop.simps) simp

lemma swap_outer:
  assumes "distinct [nodeId a, nodeId b, nodeId c]"
  shows "domChildSwap (Element i tg as sty ps ls [a, b, c]) 0 (Suc (Suc 0))
           = Inr (Element i tg as sty ps ls [c, b, a])"
  using assms
  by (simp add: domChildSwap_def at_def children_of_def nextSibling_def is_node_def
        same_node_def insertBefore_def)

lemma swap_last_two:
  assumes "distinct [nodeId a, nodeId b, nodeId c]"
  shows "domChildSwap (Element i tg as sty ps ls [c, b, a]) (Suc 0) (Suc (Suc 0))
           = Inr (Element i tg as sty ps ls [c, a, b])"
  using assms
  by (simp add: domChildSwap_def at_def children_of_def nextSibling_def is_node_def
        same_node_def insertBefore_def)

lemma step_moved:
  assumes "at newChildren i = Some newChild" and "at oldChildren i = Some oldChild"
    and "moved_from km newChild i = Some j" and "at oldChildren j = Some other"
    and "domChildSwap p i j = Inr p1" and "at (children_of p1) i = Some element"
  shows "diffChildren_step D R newChildren i (oldChildren, km, p, rc, st)
           = (case D other newChild element st of
                Inl e \<Rightarrow> Inl e
              | Inr (other', element', st1) \<Rightarrow>
                  Inr (oldChildren[i := other', j := oldChild],
                       (case truthy_key oldChild of None \<Rightarrow> km | Some k \<Rightarrow> km(k \<mapsto> j)),
                       set_child p1 i element', rc, st1))"
  using assms by (simp add: diffChildren_step_def Let_def)

lemma step_positional:
  assumes "at newChildren i = Some newChild" and "at oldChildren i = Some oldChild"
    and "moved_from km newChild i = None" and "\<not> needsReplacement oldChild newChild"
    and "at (children_of p) i = Some element"
  shows "diffChildren_step D R newChildren i (oldChildren, km, p, rc, st)
           = (case D oldChild newChild element st of
                Inl e \<Rightarrow> Inl e
              | Inr (oldChild', element', st1) \<Rightarrow>
                  Inr (oldChildren[i := oldChild'],
                       (case truthy_key oldChild of None \<Rightarrow> km | Some k \<Rightarrow> km(k := None)),
                       set_child p i element', rc, st1))"
  using assms by (simp add: diffChildren_step_def Let_def)

lemma set_child_Element:
  "set_child (Element i tg as sty ps ls cs) j x = Element i tg as sty ps ls (cs[j := x])"
  by (simp add: set_child_def set_childNodes_def children_of_def)

lemma keyed_rotation_steps:
  assumes keys: "truthy_key A = Some k1" "truthy_key B = Some k2" "truthy_key C = Some k3"
    and keys': "truthy_key A' = Some k1" "truthy_key B' = Some k2" "truthy_key C' = Some k3"
    and uniq: "distinct [k1, k2, k3]"
    and same: "\<not> needsReplacement B B'"
    and nodes: "children_of p = [a, b, c]" "distinct [nodeId a, nodeId b, nodeId c]"
    and idp: "\<And>x y e s x' e' s'. D x y e s = Inr (x', e', s') \<Longrightarrow> nodeId e' = nodeId e"
    and run: "diffChildren D R [A, B, C] [C', A', B'] p st = Inr (olds', p', st')"
  shows "\<exists>C2 A2 B2 c2 a2 b2 st1 st2.
           D C C' c st = Inr (C2, c2, st1)
           \<and> D A A' a st1 = Inr (A2, a2, st2)
           \<and> D B B' b st2 = Inr (B2, b2, st')
           \<and> olds' = [C2, A2, B2]
           \<and> children_of p' = [c2, a2, b2]
           \<and> nodeId p' = nodeId p"
proof -
  from nodes(1) obtain pid tg as sty ps ls where p: "p = Element pid tg as sty ps ls [a, b, c]"
    by (cases p) (auto simp: children_of_def)
  let ?new = "[C', A', B']"
  define km0 where "km0 = (key_map [A, B, C])(k1 \<mapsto> 0, k2 \<mapsto> Suc 0, k3 \<mapsto> Suc (Suc 0))"
  define km1 where "km1 = km0(k1 \<mapsto> Suc (Suc 0))"
  define km2 where "km2 = km1(k2 \<mapsto> Suc (Suc 0))"
  have look0: "km0 k3 = Some (Suc (Suc 0))"
    by (simp add: km0_def)
  have look1: "km1 k1 = Some (Suc (Suc 0))"
    by (simp add: km1_def)
  have look2: "km2 k2 = Some (Suc (Suc 0))"
    by (simp add: km2_def)
  let ?finish = "\<lambda>r. case r of
                   Inl e \<Rightarrow> Inl e
                 | Inr (o2, km2, p2, removedCount, s2) \<Rightarrow>
                     (case remove_trailing removedCount o2 p2 of
                        Inl e \<Rightarrow> Inl e
                      | Inr (o3, p3) \<Rightarrow> Inr (o3, p3, s2))"
  have newmap: "key_map ?new k1 = Some (Suc 0)" "key_map ?new k2 = Some (Suc (Suc 0))"
    "key_map ?new k3 = Some 0"
    using key_map_three [OF keys'(3) keys'(1) keys'(2)] uniq by auto
  have pre: "remove_unmatched (key_map ?new) 0 [A, B, C] (key_map [A, B, C]) p
               = Inr ([A, B, C], km0, p)"
    unfolding km0_def by (rule remove_unmatched_three [OF keys newmap])
  from run have run0:
    "?finish (diffChildren_loop D R ?new 0 ([A, B, C], km0, p, 0, st)) = Inr (olds', p', st')"
    by (simp add: diffChildren_def pre)
  \<comment> \<open>position 0: the child keyed \<open>k3\<close> comes from index 2\<close>
  have m0: "moved_from km0 C' 0 = Some (Suc (Suc 0))"
    using keys' look0 by (simp add: moved_from_def)
  have step0: "diffChildren_step D R ?new 0 ([A, B, C], km0, p, 0, st)
                 = (case D C C' c st of
                      Inl e \<Rightarrow> Inl e
                    | Inr (C2, c2, st1) \<Rightarrow>
                        Inr ([C2, B, A], km1,
                             Element pid tg as sty ps ls [c2, b, a], 0, st1))"
    using step_moved [where newChildren = ?new and i = 0 and oldChildren = "[A, B, C]"
        and newChild = C' and oldChild = A and km = km0 and j = "Suc (Suc 0)" and other = C
        and p = p and ?p1.0 = "Element pid tg as sty ps ls [c, b, a]" and element = c
        and D = D and R = R and rc = 0 and st = st]
      m0 swap_outer [OF nodes(2)] keys
    by (simp add: at_def p children_of_def set_child_Element km1_def split: sum.splits prod.splits)
  from run0 obtain C2 c2 st1 where d0: "D C C' c st = Inr (C2, c2, st1)"
    by (cases "D C C' c st") (auto simp: loop_unfold step0)
  from idp [OF d0] have id0: "nodeId c2 = nodeId c" .
  from run0 d0 have run1:
    "?finish (diffChildren_loop D R ?new (Suc 0)
                ([C2, B, A], km1, Element pid tg as sty ps ls [c2, b, a], 0, st1))
       = Inr (olds', p', st')"
    by (simp add: loop_unfold step0)
  \<comment> \<open>position 1: the child keyed \<open>k1\<close> now sits at index 2\<close>
  have m1: "moved_from km1 A' (Suc 0) = Some (Suc (Suc 0))"
    using keys' look1 by (simp add: moved_from_def)
  from nodes(2) id0 have distinct1: "distinct [nodeId a, nodeId b, nodeId c2]"
    by simp
  have step1: "diffChildren_step D R ?new (Suc 0)
                 ([C2, B, A], km1, Element pid tg as sty ps ls [c2, b, a], 0, st1)
                 = (case D A A' a st1 of
                      Inl e \<Rightarrow> Inl e
                    | Inr (A2, a2, st2) \<Rightarrow>
                        Inr ([C2, A2, B], km2,
                             Element pid tg as sty ps ls [c2, a2, b], 0, st2))"
    using step_moved [where newChildren = ?new and i = "Suc 0" and oldChildren = "[C2, B, A]"
        and newChild = A' and oldChild = B and km = km1 and j = "Suc (Suc 0)" and other = A
        and p = "Element pid tg as sty ps ls [c2, b, a]"
        and ?p1.0 = "Element pid tg as sty ps ls [c2, a, b]" and element = a
        and D = D and R = R and rc = 0 and st = st1]
      m1 swap_last_two [OF distinct1] keys
    by (simp add: at_def children_of_def set_child_Element km2_def split: sum.splits prod.splits)
  from run1 obtain A2 a2 st2 where d1: "D A A' a st1 = Inr (A2, a2, st2)"
    by (cases "D A A' a st1") (auto simp: loop_unfold step1)
  from run1 d1 have run2:
    "?finish (diffChildren_loop D R ?new (Suc (Suc 0))
                ([C2, A2, B], km2, Element pid tg as sty ps ls [c2, a2, b], 0, st2))
       = Inr (olds', p', st')"
    by (simp add: loop_unfold step1)
  \<comment> \<open>position 2: the child keyed \<open>k2\<close> is in place\<close>
  have m2: "moved_from km2 B' (Suc (Suc 0)) = None"
    using keys' look2 by (simp add: moved_from_def)
  have step2: "diffChildren_step D R ?new (Suc (Suc 0))
                 ([C2, A2, B], km2, Element pid tg as sty ps ls [c2, a2, b], 0, st2)
                 = (case D B B' b st2 of
                      Inl e \<Rightarrow> Inl e
                    | Inr (B2, b2, st3) \<Rightarrow>
                        Inr ([C2, A2, B2], km2(k2 := None),
                             Element pid tg as sty ps ls [c2, a2, b2], 0, st3))"
    using step_positional [where newChildren = ?new and i = "Suc (Suc 0)"
        and oldChildren = "[C2, A2, B]" and newChild = B' and oldChild = B and km = km2
        and p = "Element pid tg as sty ps ls [c2, a2, b]" and element = b
        and D = D and R = R and rc = 0 and st = st2]
      m2 same keys
    by (simp add: at_def children_of_def set_child_Element split: sum.splits prod.splits)
  from run2 obtain B2 b2 st3 where d2: "D B B' b st2 = Inr (B2, b2, st3)"
    by (cases "D B B' b st2") (auto simp: loop_unfold step2)
  from run2 d2 have "Inr ([C2, A2, B2], Element pid tg as sty ps ls [c2, a2, b2], st3)
                       = (Inr (olds', p', st') :: error + (vnode list \<times> dom \<times> world))"
    by (simp add: loop_unfold step2 loop_end)
  then have "olds' = [C2, A2, B2]" "p' = Element pid tg as sty ps ls [c2, a2, b2]" "st' = st3"
    by simp_all
  with d0 d1 d2 p show ?thesis
    by (simp add: children_of_def)
qed

lemma nodeId_diffProps_key:
  "diffProps_key ops nps sig st key e = Inr e' \<Longrightarrow> nodeId e' = nodeId e"
  by (auto simp: diffProps_key_def Let_def nodeId_setAttribute nodeId_assignStyle
        nodeId_setProperty nodeId_addEventListener split: if_splits)

lemma nodeId_diffProps:
  assumes "diffProps oldNode newNode e st = Inr (oldNode1, e', st')"
  shows "nodeId e' = nodeId e"
proof (cases oldNode)
  case (VPrimitive v k)
  with assms show ?thesis by simp
next
  case old: (VElement tg ops cs c k)
  show ?thesis
  proof (cases newNode)
    case (VPrimitive v k')
    with assms old show ?thesis by simp
  next
    case (VElement tg' nps cs' c' k')
    from diffProps_result [OF assms [unfolded old VElement]]
    have "forEach (diffProps_key ops nps (nextController st)
                     (snd (new_AbortController (abort c st))))
            (keys_set (map fst ops @ map fst nps)) e = Inr e'"
      by simp
    from nodeId_forEach [OF this] show ?thesis
      by (simp add: nodeId_diffProps_key)
  next
    case (VFunction f ps t k')
    with assms old show ?thesis by simp
  qed
next
  case (VFunction f ps t k)
  with assms show ?thesis by simp
qed

lemma nodeId_removeChild: "removeChild p x = Inr p' \<Longrightarrow> nodeId p' = nodeId p"
  by (auto simp: removeChild_def nodeId_set_childNodes split: option.splits)

lemma nodeId_replaceChild: "replaceChild p x old = Inr p' \<Longrightarrow> nodeId p' = nodeId p"
  by (auto simp: replaceChild_def nodeId_set_childNodes split: option.splits)

lemma nodeId_insertBefore: "insertBefore p x r = Inr p' \<Longrightarrow> nodeId p' = nodeId p"
  by (cases p) (auto simp: insertBefore_def Let_def split: option.splits)

lemma nodeId_domChildSwap: "domChildSwap p i j = Inr p' \<Longrightarrow> nodeId p' = nodeId p"
proof -
  assume a: "domChildSwap p i j = Inr p'"
  show ?thesis
  proof (cases "at (children_of p) j")
    case None
    with a show ?thesis by (simp add: domChildSwap_def)
  next
    case src: (Some fromElement)
    show ?thesis
    proof (cases "at (children_of p) i")
      case None
      with a src show ?thesis by (simp add: domChildSwap_def)
    next
      case (Some destinationElement)
      let ?fromNext = "nextSibling (children_of p) fromElement"
      let ?destNext = "nextSibling (children_of p) destinationElement"
      show ?thesis
      proof (cases "is_node ?fromNext destinationElement")
        case True
        with a src Some show ?thesis
          by (simp add: domChildSwap_def Let_def nodeId_insertBefore)
      next
        case False
        show ?thesis
        proof (cases "is_node ?destNext fromElement")
          case True
          with a src Some False show ?thesis
            by (simp add: domChildSwap_def Let_def nodeId_insertBefore)
        next
          case no: False
          from a src Some False no obtain p1 where
            1: "insertBefore p fromElement ?destNext = Inr p1"
            and 2: "insertBefore p1 destinationElement ?fromNext = Inr p'"
            by (cases "insertBefore p fromElement ?destNext")
               (auto simp: domChildSwap_def Let_def)
          from nodeId_insertBefore [OF 1] nodeId_insertBefore [OF 2] show ?thesis by simp
        qed
      qed
    qed
  qed
qed

lemma nodeId_set_child: "nodeId (set_child p i x) = nodeId p"
  by (simp add: set_child_def nodeId_set_childNodes)

lemma nodeId_clear_content: "nodeId (clear_content p) = nodeId p"
  by (cases p) (auto simp: clear_content_def)

lemma nodeId_remove_unmatched:
  "remove_unmatched nkm i old km p = Inr (old', km', p') \<Longrightarrow> nodeId p' = nodeId p"
proof (induction nkm i old km p rule: remove_unmatched.induct)
  case (1 nkm i old km p)
  show ?case
  proof (cases "i < length old")
    case False
    with "1.prems" show ?thesis by (simp add: remove_unmatched.simps)
  next
    case inside: True
    show ?thesis
    proof (cases "truthy_key (old ! i)")
      case None
      with "1.prems" inside have "remove_unmatched nkm (Suc i) old km p = Inr (old', km', p')"
        by (simp add: remove_unmatched.simps)
      from "1.IH"(1) [OF inside None this] show ?thesis .
    next
      case (Some k)
      show ?thesis
      proof (cases "nkm k = None")
        case True
        from "1.prems" inside Some True obtain p1 where
          rm: "removeChild p (at (children_of p) i) = Inr p1"
          and rest: "remove_unmatched nkm i (splice1 i old) km p1 = Inr (old', km', p')"
          by (cases "removeChild p (at (children_of p) i)")
             (auto simp: remove_unmatched.simps)
        from "1.IH"(2) [OF inside Some True rm rest] nodeId_removeChild [OF rm]
        show ?thesis by simp
      next
        case False
        with "1.prems" inside Some
        have "remove_unmatched nkm (Suc i) old (km(k \<mapsto> i)) p = Inr (old', km', p')"
          by (simp add: remove_unmatched.simps)
        from "1.IH"(3) [OF inside Some False this] show ?thesis .
      qed
    qed
  qed
qed

lemma nodeId_step:
  assumes "diffChildren_step D R new i (old, km, p, rc, st) = Inr (old', km', p', rc', st')"
  shows "nodeId p' = nodeId p"
proof (cases "at new i")
  case None
  with assms show ?thesis by (simp add: diffChildren_step_def)
next
  case new: (Some newChild)
  show ?thesis
  proof (cases "at old i")
    case None
    from assms new None obtain nc el s1 where r: "R newChild st = Inr (nc, el, s1)"
      by (cases "R newChild st") (auto simp: diffChildren_step_def)
    from assms new None r obtain p1 where a: "appendChild p el = Inr p1" and "p' = p1"
      by (cases "appendChild p el") (auto simp: diffChildren_step_def)
    with nodeId_appendChild [OF a] show ?thesis by simp
  next
    case old: (Some oldChild)
    show ?thesis
    proof (cases "moved_from km newChild i")
      case (Some j)
      from assms new old Some obtain p1 where sw: "domChildSwap p i j = Inr p1"
        by (cases "domChildSwap p i j") (auto simp: diffChildren_step_def Let_def)
      from assms new old Some sw obtain other where o: "at old j = Some other"
        by (cases "at old j") (auto simp: diffChildren_step_def Let_def)
      from assms new old Some sw o obtain el where e: "at (children_of p1) i = Some el"
        by (cases "at (children_of p1) i") (auto simp: diffChildren_step_def Let_def)
      from assms new old Some sw o e obtain o' el' s1 where
        "D other newChild el st = Inr (o', el', s1)" and "p' = set_child p1 i el'"
        by (cases "D other newChild el st") (auto simp: diffChildren_step_def Let_def)
      with nodeId_domChildSwap [OF sw] show ?thesis by (simp add: nodeId_set_child)
    next
      case None
      show ?thesis
      proof (cases "needsReplacement oldChild newChild")
        case True
        from assms new old None True obtain nc el s1 where r: "R newChild st = Inr (nc, el, s1)"
          by (cases "R newChild st") (auto simp: diffChildren_step_def Let_def)
        from assms new old None True r obtain p1 where
          rp: "replaceChild p el (at (children_of p) i) = Inr p1" and "p' = p1"
          by (cases "replaceChild p el (at (children_of p) i)")
             (auto simp: diffChildren_step_def Let_def)
        with nodeId_replaceChild [OF rp] show ?thesis by simp
      next
        case False
        from assms new old None False obtain el where e: "at (children_of p) i = Some el"
          by (cases "at (children_of p) i") (auto simp: diffChildren_step_def Let_def)
        from assms new old None False e obtain o' el' s1 where
          "D oldChild newChild el st = Inr (o', el', s1)" and "p' = set_child p i el'"
          by (cases "D oldChild newChild el st") (auto simp: diffChildren_step_def Let_def)
        then show ?thesis by (simp add: nodeId_set_child)
      qed
    qed
  qed
qed

lemma nodeId_loop:
  "diffChildren_loop D R new i (old, km, p, rc, st) = Inr (old', km', p', rc', st')
     \<Longrightarrow> nodeId p' = nodeId p"
proof (induction D R new i "(old, km, p, rc, st)" arbitrary: old km p rc st
    rule: diffChildren_loop.induct)
  case (1 D R new i old km p rc st)
  show ?case
  proof (cases "i < max (length old) (length new)")
    case False
    with "1.prems" show ?thesis by (simp add: loop_end)
  next
    case True
    from "1.prems" True obtain s1 where
      step: "diffChildren_step D R new i (old, km, p, rc, st) = Inr s1"
      and rest: "diffChildren_loop D R new (Suc i) s1 = Inr (old', km', p', rc', st')"
      by (cases "diffChildren_step D R new i (old, km, p, rc, st)") (auto simp: loop_unfold)
    obtain o1 k1 p1 r1 st1 where s1: "s1 = (o1, k1, p1, r1, st1)"
      by (cases s1) auto
    from "1.hyps" [OF True step [unfolded s1] rest [unfolded s1]]
    have "nodeId p' = nodeId p1" .
    with nodeId_step [OF step [unfolded s1]] show ?thesis by simp
  qed
qed

lemma nodeId_remove_trailing:
  "remove_trailing n old p = Inr (old', p') \<Longrightarrow> nodeId p' = nodeId p"
proof (induction n arbitrary: old p)
  case 0
  then show ?case by simp
next
  case (Suc n)
  from Suc.prems obtain p1 where rm: "removeChild p (lastChild p) = Inr p1"
    and rest: "remove_trailing n (butlast old) p1 = Inr (old', p')"
    by (cases "removeChild p (lastChild p)") auto
  from Suc.IH [OF rest] nodeId_removeChild [OF rm] show ?case by simp
qed

lemma nodeId_diffChildren:
  assumes "diffChildren D R old new p st = Inr (old', p', st')"
  shows "nodeId p' = nodeId p"
proof (cases "length old = 0")
  case True
  with assms show ?thesis by (simp add: diffChildren_def nodeId_render_children)
next
  case False
  show ?thesis
  proof (cases "length new = 0")
    case True
    with assms False show ?thesis by (auto simp: diffChildren_def nodeId_clear_content)
  next
    case new: False
    from assms False new obtain o1 k1 p1 where
      pre: "remove_unmatched (key_map new) 0 old (key_map old) p = Inr (o1, k1, p1)"
      by (cases "remove_unmatched (key_map new) 0 old (key_map old) p")
         (auto simp: diffChildren_def)
    from assms False new pre obtain o2 k2 p2 rc s2 where
      loop: "diffChildren_loop D R new 0 (o1, k1, p1, 0, st) = Inr (o2, k2, p2, rc, s2)"
      by (cases "diffChildren_loop D R new 0 (o1, k1, p1, 0, st)")
         (auto simp: diffChildren_def)
    from assms False new pre loop obtain o3 where
      post: "remove_trailing rc o2 p2 = Inr (o3, p')"
      by (cases "remove_trailing rc o2 p2") (auto simp: diffChildren_def)
    from nodeId_remove_unmatched [OF pre] nodeId_loop [OF loop] nodeId_remove_trailing [OF post]
    show ?thesis by simp
  qed
qed

lemma nodeId_set_nodeValue: "nodeId (set_nodeValue e s) = nodeId e"
  by (cases e) (auto simp: set_nodeValue_def)

lemma nodeId_diffPrimitive:
  "diffPrimitive oldNode newNode e = Inr (oldNode1, e') \<Longrightarrow> nodeId e' = nodeId e"
  by (cases oldNode; cases newNode) (auto simp: nodeId_set_nodeValue split: if_splits)

lemma nodeId_diffElement:
  assumes "diffElement D R oldNode newNode e st = Inr (oldNode1, e', st')"
  shows "nodeId e' = nodeId e"
proof -
  from assms obtain o1 e1 s1 where p: "diffProps oldNode newNode e st = Inr (o1, e1, s1)"
    by (cases "diffProps oldNode newNode e st") (auto simp: diffElement_def)
  from assms p obtain cs where
    c: "diffChildren D R (children o1) (children newNode) e1 s1 = Inr (cs, e', st')"
    by (cases "diffChildren D R (children o1) (children newNode) e1 s1")
       (auto simp: diffElement_def)
  from nodeId_diffProps [OF p] nodeId_diffChildren [OF c] show ?thesis by simp
qed

lemma diff_nodeId:
  "diff C n oldNode newNode e st = Inr (oldNode1, e', st') \<Longrightarrow> nodeId e' = nodeId e"
proof (induction n arbitrary: oldNode newNode e st oldNode1 e' st')
  case 0
  then show ?case by (simp add: diff.simps)
next
  case (Suc n)
  show ?case
  proof (cases newNode)
    case (VPrimitive v k)
    with Suc.prems obtain o1 where "diffPrimitive oldNode (VPrimitive v k) e = Inr (o1, e')"
      by (cases "diffPrimitive oldNode (VPrimitive v k) e") (auto simp: diff_Suc_primitive)
    then show ?thesis by (rule nodeId_diffPrimitive)
  next
    case (VElement tg ps cs c k)
    with Suc.prems
    have "diffElement (diff C n) (render C n) oldNode newNode e st = Inr (oldNode1, e', st')"
      by (auto simp: diff_Suc_element split: if_splits)
    then show ?thesis by (rule nodeId_diffElement)
  next
    case new: (VFunction f' nps t' k')
    from Suc.prems new
    have run: "diffFunction C (diff C n) oldNode (VFunction f' nps t' k') e st
                 = Inr (oldNode1, e', st')"
      by (simp add: diff_Suc_function)
    show ?thesis
    proof (cases oldNode)
      case (VPrimitive v k)
      with run show ?thesis by simp
    next
      case (VElement tg ps cs c k)
      with run show ?thesis by simp
    next
      case (VFunction f ops t k)
      show ?thesis
      proof (cases "truthy (prop_get ops ''lazy'') \<and> stringify_props ops = stringify_props nps")
        case True
        with run VFunction show ?thesis by simp
      next
        case False
        from run VFunction False obtain tn s1 where i: "invoke C f' nps st = Inr (tn, s1)"
          by (cases "invoke C f' nps st") auto
        from run VFunction False i obtain ot where t: "t = Some ot"
          by (cases t) auto
        from run VFunction False i t obtain t1 where
          "diff C n ot tn e s1 = Inr (t1, e', st')"
          by (cases "diff C n ot tn e s1") auto
        then show ?thesis by (rule Suc.IH)
      qed
    qed
  qed
qed

lemma diffProps_vkey:
  "diffProps oldNode newNode e st = Inr (oldNode1, e', st') \<Longrightarrow> vkey oldNode1 = vkey oldNode"
  by (cases oldNode; cases newNode)
     (auto simp: Let_def new_AbortController_def split: sum.splits)

lemma diff_vkey:
  assumes "diff C n oldNode newNode e st = Inr (oldNode1, e', st')"
  shows "vkey oldNode1 = vkey oldNode"
proof (cases n)
  case 0
  with assms show ?thesis by (simp add: diff.simps)
next
  case (Suc m)
  show ?thesis
  proof (cases newNode)
    case (VPrimitive v k)
    with assms Suc obtain e1 where "diffPrimitive oldNode (VPrimitive v k) e = Inr (oldNode1, e1)"
      by (cases "diffPrimitive oldNode (VPrimitive v k) e") (auto simp: diff_Suc_primitive)
    then show ?thesis
      by (cases oldNode) (auto split: if_splits)
  next
    case (VElement tg ps cs c k)
    with assms Suc
    have el: "diffElement (diff C m) (render C m) oldNode newNode e st = Inr (oldNode1, e', st')"
      by (auto simp: diff_Suc_element split: if_splits)
    then obtain o1 e1 s1 where p: "diffProps oldNode newNode e st = Inr (o1, e1, s1)"
      by (cases "diffProps oldNode newNode e st") (auto simp: diffElement_def)
    from el p have "vkey oldNode1 = vkey o1"
      by (cases "diffChildren (diff C m) (render C m) (children o1) (children newNode) e1 s1")
         (auto simp: diffElement_def)
    with diffProps_vkey [OF p] show ?thesis by simp
  next
    case new: (VFunction f' nps t' k')
    from assms Suc new
    have run: "diffFunction C (diff C m) oldNode (VFunction f' nps t' k') e st
                 = Inr (oldNode1, e', st')"
      by (simp add: diff_Suc_function)
    show ?thesis
    proof (cases oldNode)
      case (VPrimitive v k)
      with run show ?thesis by simp
    next
      case (VElement tg ps cs c k)
      with run show ?thesis by simp
    next
      case (VFunction f ops t k)
      with run show ?thesis
        by (auto split: if_splits sum.splits option.splits)
    qed
  qed
qed

lemma diff_truthy_key:
  "diff C n oldNode newNode e st = Inr (oldNode1, e', st') \<Longrightarrow>
     truthy_key oldNode1 = truthy_key oldNode"
  by (simp add: truthy_key_def diff_vkey)

text \<open>
  Claim C1. Take old children \<open>A\<close>, \<open>B\<close>, \<open>C\<close> with three different keys, new
  children \<open>C'\<close>, \<open>A'\<close>, \<open>B'\<close> with the keys of \<open>C\<close>, \<open>A\<close>, \<open>B\<close>, each new
  child of the kind and tag of the old child of its key, and a parent whose children
  are the three different nodes \<open>a\<close>, \<open>b\<close>, \<open>c\<close>. When \<open>diffChildren\<close> returns, the
  children of the parent are the nodes \<open>c\<close>, \<open>a\<close>, \<open>b\<close> in this order: each is
  the node the same-keyed child had, as reconciling that child against its new
  description left it. The parent is the node it was, and the old sequence holds the old
  nodes \<open>C\<close>, \<open>A\<close>, \<open>B\<close>, reconciled, in the order and with the keys of the new
  sequence.
\<close>

theorem keyed_rotation:
  assumes keys: "truthy_key A = Some k1" "truthy_key B = Some k2" "truthy_key C = Some k3"
    and keys': "truthy_key A' = Some k1" "truthy_key B' = Some k2" "truthy_key C' = Some k3"
    and uniq: "distinct [k1, k2, k3]"
    and same: "\<not> needsReplacement A A'" "\<not> needsReplacement B B'" "\<not> needsReplacement C C'"
    and nodes: "children_of p = [a, b, c]" "distinct [nodeId a, nodeId b, nodeId c]"
    and run: "diffChildren (diff K n) (render K n) [A, B, C] [C', A', B'] p st
                = Inr (olds', p', st')"
  shows "map nodeId (children_of p') = [nodeId c, nodeId a, nodeId b]
       \<and> nodeId p' = nodeId p
       \<and> map truthy_key olds' = map truthy_key [C', A', B']
       \<and> (\<exists>C2 A2 B2 c2 a2 b2 st1 st2.
             diff K n C C' c st = Inr (C2, c2, st1)
             \<and> diff K n A A' a st1 = Inr (A2, a2, st2)
             \<and> diff K n B B' b st2 = Inr (B2, b2, st')
             \<and> olds' = [C2, A2, B2]
             \<and> children_of p' = [c2, a2, b2])"
proof -
  have "\<exists>C2 A2 B2 c2 a2 b2 st1 st2.
           diff K n C C' c st = Inr (C2, c2, st1)
           \<and> diff K n A A' a st1 = Inr (A2, a2, st2)
           \<and> diff K n B B' b st2 = Inr (B2, b2, st')
           \<and> olds' = [C2, A2, B2]
           \<and> children_of p' = [c2, a2, b2]
           \<and> nodeId p' = nodeId p"
  proof (rule keyed_rotation_steps [where D = "diff K n" and R = "render K n",
        OF keys keys' uniq same(2) nodes _ run])
    fix x y e s x' e' s'
    assume "diff K n x y e s = Inr (x', e', s')"
    then show "nodeId e' = nodeId e" by (rule diff_nodeId)
  qed
  then obtain C2 A2 B2 c2 a2 b2 st1 st2 where
    d0: "diff K n C C' c st = Inr (C2, c2, st1)"
    and d1: "diff K n A A' a st1 = Inr (A2, a2, st2)"
    and d2: "diff K n B B' b st2 = Inr (B2, b2, st')"
    and res: "olds' = [C2, A2, B2]" "children_of p' = [c2, a2, b2]" "nodeId p' = nodeId p"
    by blast
  from diff_nodeId [OF d0] diff_nodeId [OF d1] diff_nodeId [OF d2] res
  have ids: "map nodeId (children_of p') = [nodeId c, nodeId a, nodeId b]"
    by simp
  from diff_truthy_key [OF d0] diff_truthy_key [OF d1] diff_truthy_key [OF d2] res keys keys'
  have ks: "map truthy_key olds' = map truthy_key [C', A', B']"
    by simp
  from ids ks res d0 d1 d2 show ?thesis by blast
qed

lemmas rotation_simps = children_simps item_def item_node_def rotation_old_def rotation_new_def
  rotation_parent_def world7_def set_nodeValue_def

theorem keyed_rotation_witness:
  "\<exists>olds' p' st'.
     diffChildren (diff no_comps (Suc (Suc 0))) (render no_comps (Suc (Suc 0)))
       rotation_old rotation_new rotation_parent world7 = Inr (olds', p', st')
     \<and> children_of p' = [item_node 5 ''C'', item_node 1 ''A'', item_node 3 ''B'']
     \<and> map nodeId (children_of p') = [5, 1, 3]
     \<and> map truthy_key olds' = [Some ''3'', Some ''1'', Some ''2'']"
proof -
  have "\<exists>olds' st'.
     diffChildren (diff no_comps (Suc (Suc 0))) (render no_comps (Suc (Suc 0)))
       rotation_old rotation_new rotation_parent world7
     = Inr (olds', Element 0 ''ul'' [] [] [] []
                     [item_node 5 ''C'', item_node 1 ''A'', item_node 3 ''B''], st')"
    by (simp add: rotation_simps)
  then obtain olds' st' where run:
    "diffChildren (diff no_comps (Suc (Suc 0))) (render no_comps (Suc (Suc 0)))
       [item ''1'' ''A'' 1, item ''2'' ''B'' 2, item ''3'' ''C'' 3]
       [item ''3'' ''C'' 4, item ''1'' ''A'' 5, item ''2'' ''B'' 6] rotation_parent world7
     = Inr (olds', Element 0 ''ul'' [] [] [] []
                     [item_node 5 ''C'', item_node 1 ''A'', item_node 3 ''B''], st')"
    unfolding rotation_old_def rotation_new_def by blast
  have keys: "truthy_key (item ''1'' ''A'' 1) = Some ''1''"
    "truthy_key (item ''2'' ''B'' 2) = Some ''2''" "truthy_key (item ''3'' ''C'' 3) = Some ''3''"
    "truthy_key (item ''1'' ''A'' 5) = Some ''1''" "truthy_key (item ''2'' ''B'' 6) = Some ''2''"
    "truthy_key (item ''3'' ''C'' 4) = Some ''3''"
    by (simp_all add: item_def truthy_key_def)
  have uniq: "distinct [''1'', ''2'', ''3'']"
    by simp
  have same: "\<not> needsReplacement (item ''1'' ''A'' 1) (item ''1'' ''A'' 5)"
    "\<not> needsReplacement (item ''2'' ''B'' 2) (item ''2'' ''B'' 6)"
    "\<not> needsReplacement (item ''3'' ''C'' 3) (item ''3'' ''C'' 4)"
    by (simp_all add: item_def needsReplacement_def)
  have nodes: "children_of rotation_parent = [item_node 1 ''A'', item_node 3 ''B'', item_node 5 ''C'']"
    "distinct [nodeId (item_node 1 ''A''), nodeId (item_node 3 ''B''), nodeId (item_node 5 ''C'')]"
    by (simp_all add: rotation_parent_def children_of_def item_node_def)
  from keyed_rotation [OF keys uniq same nodes run]
  have "map nodeId (children_of (Element 0 ''ul'' [] [] [] []
                     [item_node 5 ''C'', item_node 1 ''A'', item_node 3 ''B'']))
          = [nodeId (item_node 5 ''C''), nodeId (item_node 1 ''A''), nodeId (item_node 3 ''B'')]"
    and "map truthy_key olds'
          = map truthy_key [item ''3'' ''C'' 4, item ''1'' ''A'' 5, item ''2'' ''B'' 6]"
    by blast+
  with keys have "map nodeId (children_of (Element 0 ''ul'' [] [] [] []
                     [item_node 5 ''C'', item_node 1 ''A'', item_node 3 ''B''])) = [5, 1, 3]"
    and "map truthy_key olds' = [Some ''3'', Some ''1'', Some ''2'']"
    by (simp_all add: item_node_def)
  with run show ?thesis
    unfolding rotation_old_def rotation_new_def
    by (intro exI conjI) (assumption | simp add: children_of_def)+
qed

section \<open>Reconciling a tree against a copy of itself\<close>

subsection \<open>Component calls return, and return copies\<close>

lemma value_copy_refl: "value_copy a a"
  by (simp add: value_copy_def)

lemma props_copy_refl: "props_copy ps ps"
  by (simp add: props_copy_def list_all2_refl value_copy_refl)

lemma wrap_child_copy:
  "rel_child_of copy_of c c' \<Longrightarrow> copy_of (wrap_child c) (wrap_child c')"
  by (cases c; cases c') (auto simp: wrap_child_def)

lemma normalize_copy:
  assumes "list_all2 (rel_child_of copy_of) cs cs'"
  shows "list_all2 copy_of (normalizeChildren (children_arg_of cs))
           (normalizeChildren (children_arg_of cs'))"
proof (cases cs)
  case Nil
  with assms show ?thesis by (simp add: children_arg_of_def normalizeChildren_def)
next
  case (Cons c rest)
  with assms obtain c' rest' where cs': "cs' = c' # rest'" and c: "rel_child_of copy_of c c'"
    and rest: "list_all2 (rel_child_of copy_of) rest rest'"
    by (cases cs') auto
  show ?thesis
  proof (cases rest)
    case Nil
    with rest have "rest' = []" by simp
    moreover from c have "(c = ChildStr [] \<or> c = ChildNum 0) = (c' = ChildStr [] \<or> c' = ChildNum 0)"
      by (cases c; cases c') auto
    ultimately show ?thesis using Cons cs' Nil c
      by (auto simp: children_arg_of_def normalizeChildren_def wrap_child_copy)
  next
    case (Cons d more)
    with rest obtain d' more' where "rest' = d' # more'"
      by (cases rest') auto
    with \<open>cs = c # rest\<close> cs' Cons assms show ?thesis
      by (simp add: children_arg_of_def normalizeChildren_def list_all2_map1 list_all2_map2)
         (auto simp: wrap_child_copy elim: list_all2_mono)
  qed
qed

lemma build_copy:
  "build j st = Inr (v, st1) \<Longrightarrow> build j s = Inr (v', s1) \<Longrightarrow> copy_of v v'"
  "build_children kids st = Inr (cs, st1) \<Longrightarrow> build_children kids s = Inr (cs', s1)
     \<Longrightarrow> list_all2 (rel_child_of copy_of) cs cs'"
proof (induction j st and kids st arbitrary: v st1 s v' s1 and cs st1 s cs' s1
    rule: build_build_children.induct)
  case (1 tg ps kids key st)
  from "1.prems"(1) obtain cs stx where a: "build_children kids st = Inr (cs, stx)"
    by (cases "build_children kids st") auto
  from "1.prems"(2) obtain cs' sx where b: "build_children kids s = Inr (cs', sx)"
    by (cases "build_children kids s") auto
  from "1.prems" a b
  have v: "v = VElement tg ps (normalizeChildren (children_arg_of cs)) (nextController stx) key"
    and v': "v' = VElement tg ps (normalizeChildren (children_arg_of cs')) (nextController sx) key"
    by (auto simp: eldoraJSX_def parseJSXToEldoraNode_def new_AbortController_def)
  from "1.IH" [OF a b] show ?case
    by (simp add: v v' props_copy_refl normalize_copy)
next
  case (2 f ps key st)
  then show ?case
    by (auto simp: eldoraJSX_def parseJSXToEldoraNode_def)
next
  case (3 st)
  then show ?case by simp
next
  case (4 j kids st)
  from "4.prems"(1) obtain n stx where a: "build j st = Inr (n, stx)"
    by (cases "build j st") auto
  from "4.prems"(1) a obtain r sty where a2: "build_children kids stx = Inr (r, sty)"
    and cs: "cs = ChildNode n # r"
    by (cases "build_children kids stx") auto
  from "4.prems"(2) obtain n' sx where b: "build j s = Inr (n', sx)"
    by (cases "build j s") auto
  from "4.prems"(2) b obtain r' sy where b2: "build_children kids sx = Inr (r', sy)"
    and cs': "cs' = ChildNode n' # r'"
    by (cases "build_children kids sx") auto
  from "4.IH"(1) [OF a b] "4.IH"(2) [OF a _ a2 b2] cs cs' show ?case
    by simp
next
  case (5 str kids st)
  from "5.prems"(1) obtain r stx where a: "build_children kids st = Inr (r, stx)"
    and cs: "cs = ChildStr str # r"
    by (cases "build_children kids st") auto
  from "5.prems"(2) obtain r' sx where b: "build_children kids s = Inr (r', sx)"
    and cs': "cs' = ChildStr str # r'"
    by (cases "build_children kids s") auto
  from "5.IH" [OF a b] cs cs' show ?case by simp
next
  case (6 i kids st)
  from "6.prems"(1) obtain r stx where a: "build_children kids st = Inr (r, stx)"
    and cs: "cs = ChildNum i # r"
    by (cases "build_children kids st") auto
  from "6.prems"(2) obtain r' sx where b: "build_children kids s = Inr (r', sx)"
    and cs': "cs' = ChildNum i # r'"
    by (cases "build_children kids s") auto
  from "6.IH" [OF a b] cs cs' show ?case by simp
qed

lemma invoke_copy:
  "invoke C f ps st = Inr (v, st1) \<Longrightarrow> invoke C f ps s = Inr (v', s1) \<Longrightarrow> copy_of v v'"
  unfolding invoke_def by (rule build_copy(1))

subsection \<open>What rendering returns\<close>

lemma render_primitive:
  assumes "render K n (VPrimitive v k) st = Inr (T1, R, st1)"
  shows "T1 = VPrimitive v k \<and> R = Text (nextNode st) (to_String v)
         \<and> nextNode st1 = Suc (nextNode st)"
  using assms by (cases n) (auto simp: render.simps createTextNode_def)

lemma render_element:
  assumes "render K n (VElement tg ps cs c k) st = Inr (T1, R, st1)"
  shows "\<exists>m e1 cs1. n = Suc m
           \<and> forEach (render_prop c (st\<lparr>nextNode := Suc (nextNode st)\<rparr>)) ps
                (Element (nextNode st) tg [] [] [] [] []) = Inr e1
           \<and> render_children (render K m) cs e1 (st\<lparr>nextNode := Suc (nextNode st)\<rparr>)
                = Inr (cs1, R, st1)
           \<and> T1 = VElement tg ps cs1 c k"
proof (cases n)
  case 0
  with assms show ?thesis by (simp add: render.simps)
next
  case (Suc m)
  let ?st = "st\<lparr>nextNode := Suc (nextNode st)\<rparr>"
  let ?e0 = "Element (nextNode st) tg [] [] [] [] []"
  from assms Suc obtain e1 where p: "forEach (render_prop c ?st) ps ?e0 = Inr e1"
    by (cases "forEach (render_prop c ?st) ps ?e0") (auto simp: render.simps createElement_def)
  from assms Suc p obtain cs1 where
    "render_children (render K m) cs e1 ?st = Inr (cs1, R, st1)" "T1 = VElement tg ps cs1 c k"
    by (cases "render_children (render K m) cs e1 ?st")
       (auto simp: render.simps createElement_def)
  with Suc p show ?thesis by blast
qed

lemma render_function:
  assumes "render K n (VFunction f ps t k) st = Inr (T1, R, st1)"
  shows "\<exists>m tn s1 tn1. n = Suc m \<and> invoke K f ps st = Inr (tn, s1)
           \<and> render K m tn s1 = Inr (tn1, R, st1) \<and> T1 = VFunction f ps (Some tn1) k"
proof (cases n)
  case 0
  with assms show ?thesis by (simp add: render.simps)
next
  case (Suc m)
  from assms Suc obtain tn s1 where i: "invoke K f ps st = Inr (tn, s1)"
    by (cases "invoke K f ps st") (auto simp: render.simps)
  from assms Suc i obtain tn1 where
    "render K m tn s1 = Inr (tn1, R, st1)" "T1 = VFunction f ps (Some tn1) k"
    by (cases "render K m tn s1") (auto simp: render.simps)
  with Suc i show ?thesis by blast
qed

lemma render_children_mono:
  assumes "render_children R cs e st = Inr (cs1, e', st')"
    and "\<And>x s x1 r s1. R x s = Inr (x1, r, s1) \<Longrightarrow> nextNode s \<le> nextNode s1"
  shows "nextNode st \<le> nextNode st'"
  using assms(1)
proof (induction cs arbitrary: e st cs1)
  case Nil
  then show ?case by simp
next
  case (Cons child cs)
  from Cons.prems obtain c1 node s1 where r: "R child st = Inr (c1, node, s1)"
    by (cases "R child st") auto
  from Cons.prems r obtain e1 where a: "appendChild e node = Inr e1"
    by (cases "appendChild e node") auto
  from Cons.prems r a obtain cs2 where rest: "render_children R cs e1 s1 = Inr (cs2, e', st')"
    by (cases "render_children R cs e1 s1") auto
  from Cons.IH [OF rest] assms(2) [OF r] show ?case by simp
qed

lemma render_mono:
  "render K n T st = Inr (T1, R, st1) \<Longrightarrow> nextNode st < nextNode st1"
proof (induction n arbitrary: T st T1 R st1)
  case 0
  then show ?case by (simp add: render.simps)
next
  case (Suc n)
  show ?case
  proof (cases T)
    case (VPrimitive v k)
    with Suc.prems render_primitive show ?thesis by fastforce
  next
    case (VElement tg ps cs c k)
    from render_element [OF Suc.prems [unfolded VElement]] obtain e1 cs1 where
      rc: "render_children (render K n) cs e1 (st\<lparr>nextNode := Suc (nextNode st)\<rparr>)
             = Inr (cs1, R, st1)"
      by auto
    have "nextNode (st\<lparr>nextNode := Suc (nextNode st)\<rparr>) \<le> nextNode st1"
    proof (rule render_children_mono [OF rc])
      fix x s x1 r s1
      assume "render K n x s = Inr (x1, r, s1)"
      from Suc.IH [OF this] show "nextNode s \<le> nextNode s1" by simp
    qed
    then show ?thesis by simp
  next
    case (VFunction f ps t k)
    from render_function [OF Suc.prems [unfolded VFunction]] obtain tn s1 tn1 where
      i: "invoke K f ps st = Inr (tn, s1)" and r: "render K n tn s1 = Inr (tn1, R, st1)"
      by auto
    from Suc.IH [OF r] invoke_effects [OF i] show ?thesis by simp
  qed
qed

lemma render_children_shape:
  assumes "render_children (render K m) cs e st = Inr (cs1, e', st')"
    and "\<forall>c \<in> set (children_of e). nodeId c < nextNode st"
  shows "\<exists>rs. e' = set_childNodes e (children_of e @ rs)
           \<and> length rs = length cs \<and> length cs1 = length cs
           \<and> (\<forall>i < length cs. rendered K m (cs ! i) (cs1 ! i) (rs ! i))"
  using assms
proof (induction cs arbitrary: e st cs1)
  case Nil
  then show ?case
    by (cases e) (auto simp: set_childNodes_def children_of_def)
next
  case (Cons child cs)
  from Cons.prems(1) obtain c1 node s1 where r: "render K m child st = Inr (c1, node, s1)"
    by (cases "render K m child st") auto
  from Cons.prems(1) r obtain e1 where a: "appendChild e node = Inr e1"
    by (cases "appendChild e node") auto
  from Cons.prems(1) r a obtain cs2 where
    rest: "render_children (render K m) cs e1 s1 = Inr (cs2, e', st')"
    and cs1: "cs1 = c1 # cs2"
    by (cases "render_children (render K m) cs e1 s1") auto
  from a obtain i tg as sty ps ls cs0 where e: "e = Element i tg as sty ps ls cs0"
    by (cases e) (auto simp: appendChild_def)
  from render_nodeId [OF r] Cons.prems(2) e
  have "nodeId node \<notin> nodeId ` set cs0"
    by (auto simp: children_of_def)
  then have "remove_node node cs0 = cs0" by (rule remove_node_absent)
  with a e have e1: "e1 = Element i tg as sty ps ls (cs0 @ [node])"
    by (simp add: appendChild_def)
  from render_mono [OF r] render_nodeId [OF r] Cons.prems(2) e e1
  have "\<forall>c \<in> set (children_of e1). nodeId c < nextNode s1"
    by (auto simp: children_of_def)
  from Cons.IH [OF rest this] obtain rs where
    e': "e' = set_childNodes e1 (children_of e1 @ rs)"
    and len: "length rs = length cs" "length cs2 = length cs"
    and each: "\<forall>j < length cs. rendered K m (cs ! j) (cs2 ! j) (rs ! j)"
    by blast
  have first: "rendered K m child c1 node"
    using r by (auto simp: rendered_def)
  have all: "\<forall>j < length (child # cs). rendered K m ((child # cs) ! j) (cs1 ! j) ((node # rs) ! j)"
  proof (intro allI impI)
    fix j
    assume "j < length (child # cs)"
    then show "rendered K m ((child # cs) ! j) (cs1 ! j) ((node # rs) ! j)"
      using first each cs1 by (cases j) auto
  qed
  from e' e e1 have "e' = set_childNodes e (children_of e @ (node # rs))"
    by (simp add: set_childNodes_def children_of_def)
  with len cs1 all show ?case
    by (intro exI [of _ "node # rs"]) simp
qed

subsection \<open>Properties of a copy\<close>

lemma props_copy_get:
  "props_copy ps ps' \<Longrightarrow> key \<noteq> ''style'' \<Longrightarrow> prop_get ps' key = prop_get ps key"
  unfolding props_copy_def
proof (induction ps ps' rule: list_all2_induct)
  case Nil
  then show ?case by simp
next
  case (Cons a as b bs)
  then show ?case
    by (cases a; cases b) (auto simp: prop_get_def value_copy_def)
qed

lemma same_fields_json: "same_fields a b \<Longrightarrow> JSON_stringify a = JSON_stringify b"
  by (cases a; cases b) auto

lemma props_copy_json:
  "props_copy ps ps' \<Longrightarrow> JSON_stringify (prop_get ps key) = JSON_stringify (prop_get ps' key)"
  unfolding props_copy_def
proof (induction ps ps' rule: list_all2_induct)
  case Nil
  then show ?case by simp
next
  case (Cons a as b bs)
  then show ?case
    by (cases a; cases b) (auto simp: prop_get_def value_copy_def same_fields_json)
qed

lemma is_element_cases: "is_element e = (\<exists>i tg as sty ps ls cs. e = Element i tg as sty ps ls cs)"
  by (cases e) (auto simp: is_element_def)

lemma render_prop_element:
  assumes "render_prop c st entry e = Inr e'" and "is_element e"
  shows "is_element e' \<and> children_of e' = children_of e"
proof -
  from assms(2) obtain i tg as sty ps ls cs where e: "e = Element i tg as sty ps ls cs"
    by (auto simp: is_element_cases)
  obtain key v where entry: "entry = (key, v)" by (cases entry) auto
  from assms(1) show ?thesis
    unfolding e entry render_prop_def
    by (auto simp: is_element_def children_of_def split: if_splits sum.splits)
qed

lemma render_prop_callable:
  assumes "render_prop c st (key, v) e = Inr e'" and "is_element e"
    and "startsWith key ''on''" and "truthy v"
  shows "callable v"
proof -
  from assms(2) obtain i tg as sty ps ls cs where e: "e = Element i tg as sty ps ls cs"
    by (auto simp: is_element_cases)
  from assms(3) have "key \<noteq> ''style''" "key \<noteq> ''className''" "key \<noteq> ''value''"
    "key \<noteq> ''checked''"
    by (auto simp: startsWith_def)
  with assms(1,3) have "addEventListener (eventName key) v c (Element i tg as sty ps ls cs) st
                        = Inr e'"
    by (simp add: render_prop_def e)
  with assms(4) show ?thesis
    by (cases v) (auto simp: callable_def split: if_splits)
qed

lemma rendered_props:
  assumes "forEach (render_prop c st) ps e = Inr e'" and "is_element e"
  shows "is_element e' \<and> children_of e' = children_of e
         \<and> (\<forall>entry \<in> set ps. startsWith (fst entry) ''on'' \<longrightarrow> truthy (snd entry)
               \<longrightarrow> callable (snd entry))"
  using assms
proof (induction ps arbitrary: e)
  case Nil
  then show ?case by simp
next
  case (Cons entry ps)
  from Cons.prems(1) obtain e1 where s: "render_prop c st entry e = Inr e1"
    and rest: "forEach (render_prop c st) ps e1 = Inr e'"
    by (cases "render_prop c st entry e") auto
  from render_prop_element [OF s Cons.prems(2)]
  have e1: "is_element e1" "children_of e1 = children_of e" by simp_all
  have "startsWith (fst entry) ''on'' \<longrightarrow> truthy (snd entry) \<longrightarrow> callable (snd entry)"
    using render_prop_callable [of c st "fst entry" "snd entry" e e1] s Cons.prems(2)
    by auto
  with Cons.IH [OF rest e1(1)] e1(2) show ?case by simp
qed

lemma forEach_preserves:
  assumes "P e" and "\<And>k a. k \<in> set ks \<Longrightarrow> P a \<Longrightarrow> \<exists>b. f k a = Inr b \<and> P b"
  shows "\<exists>e'. forEach f ks e = Inr e' \<and> P e'"
  using assms
proof (induction ks arbitrary: e)
  case Nil
  then show ?case by simp
next
  case (Cons k ks)
  from Cons.prems(2) [of k e] Cons.prems(1) obtain b where b: "f k e = Inr b" "P b"
    by auto
  have "\<exists>e'. forEach f ks b = Inr e' \<and> P e'"
  proof (rule Cons.IH [OF b(2)])
    fix k' a
    assume "k' \<in> set ks" "P a"
    then show "\<exists>b. f k' a = Inr b \<and> P b" using Cons.prems(2) [of k' a] by simp
  qed
  with b(1) show ?case by simp
qed

lemma diffProps_key_copy:
  assumes el: "is_element e"
    and cb: "startsWith key ''on'' \<Longrightarrow> truthy (prop_get ps' key) \<Longrightarrow> callable (prop_get ps' key)"
    and same: "\<not> startsWith key ''on'' \<Longrightarrow> key \<noteq> ''style'' \<Longrightarrow>
                 prop_get ps' key = prop_get ps key"
    and sty: "JSON_stringify (prop_get ps ''style'') = JSON_stringify (prop_get ps' ''style'')"
  shows "\<exists>e'. diffProps_key ps ps' sig st key e = Inr e' \<and> is_element e'
              \<and> strip e' = strip e \<and> children_of e' = children_of e"
proof -
  from el obtain i tg as sty' pr ls cs where e: "e = Element i tg as sty' pr ls cs"
    by (auto simp: is_element_cases)
  show ?thesis
  proof (cases "startsWith key ''on''")
    case True
    show ?thesis
    proof (cases "truthy (prop_get ps' key)")
      case False
      with True el show ?thesis by (simp add: diffProps_key_def Let_def)
    next
      case handler: True
      from cb [OF True handler] have ok: "callable (prop_get ps' key)" .
      then have "prop_get ps' key \<noteq> JUndefined" "prop_get ps' key \<noteq> JNull"
        by (auto simp: callable_def)
      with ok True handler show ?thesis
        unfolding e
        by (auto simp: diffProps_key_def Let_def callable_def is_element_def children_of_def)
    qed
  next
    case False
    show ?thesis
    proof (cases "key = ''style''")
      case True
      with False sty el show ?thesis by (simp add: diffProps_key_def Let_def)
    next
      case other: False
      from same [OF False other] have "strict_eq (prop_get ps key) (prop_get ps' key)"
        by (simp add: strict_eq_refl)
      with False other el show ?thesis by (auto simp: diffProps_key_def Let_def)
    qed
  qed
qed

lemma diffProps_copy:
  assumes copy: "props_copy ps ps'" and el: "is_element R"
    and cbs: "\<forall>entry \<in> set ps. startsWith (fst entry) ''on'' \<longrightarrow> truthy (snd entry)
                \<longrightarrow> callable (snd entry)"
  shows "\<exists>c1 R1 st1. diffProps (VElement tg ps cs c k) (VElement tg' ps' cs' c' k') R st
                        = Inr (VElement tg ps' cs c1 k, R1, st1)
           \<and> is_element R1 \<and> strip R1 = strip R \<and> children_of R1 = children_of R
           \<and> nextNode st1 = nextNode st"
proof -
  let ?st1 = "snd (new_AbortController (abort c st))"
  let ?c1 = "nextController st"
  let ?ks = "keys_set (map fst ps @ map fst ps')"
  let ?P = "\<lambda>a. is_element a \<and> strip a = strip R \<and> children_of a = children_of R"
  have "\<exists>e'. forEach (diffProps_key ps ps' ?c1 ?st1) ?ks R = Inr e' \<and> ?P e'"
  proof (rule forEach_preserves [where P = ?P])
    show "?P R" using el by simp
  next
    fix key a
    assume a: "?P a"
    have cb: "callable (prop_get ps' key)"
      if on: "startsWith key ''on''" and handler: "truthy (prop_get ps' key)"
    proof -
      from on have "key \<noteq> ''style''" by (auto simp: startsWith_def)
      from props_copy_get [OF copy this] have same: "prop_get ps' key = prop_get ps key" .
      with handler have "prop_get ps key \<noteq> JUndefined" by auto
      then obtain v where "map_of ps key = Some v" "prop_get ps key = v"
        by (cases "map_of ps key") (auto simp: prop_get_def)
      then have "(key, v) \<in> set ps" "prop_get ps key = v"
        by (auto dest: map_of_SomeD)
      with cbs on handler same show ?thesis by fastforce
    qed
    from diffProps_key_copy [of a key ps' ps ?c1 ?st1] a cb props_copy_get [OF copy]
      props_copy_json [OF copy]
    obtain b where "diffProps_key ps ps' ?c1 ?st1 key a = Inr b" "is_element b"
      "strip b = strip a" "children_of b = children_of a"
      by blast
    with a show "\<exists>b. diffProps_key ps ps' ?c1 ?st1 key a = Inr b \<and> ?P b"
      by simp
  qed
  then obtain R1 where "forEach (diffProps_key ps ps' ?c1 ?st1) ?ks R = Inr R1" "?P R1"
    by blast
  then show ?thesis
    by (simp add: Let_def new_AbortController_def abort_def)
qed

subsection \<open>Children of a copy\<close>

lemma key_map_from_has:
  "(\<exists>j < length cs. truthy_key (cs ! j) = Some k) \<or> m k \<noteq> None
     \<Longrightarrow> key_map_from i cs m k \<noteq> None"
proof (induction cs arbitrary: i m)
  case Nil
  then show ?case by simp
next
  case (Cons child cs)
  let ?m = "case truthy_key child of None \<Rightarrow> m | Some k' \<Rightarrow> m(k' \<mapsto> i)"
  have "(\<exists>j < length cs. truthy_key (cs ! j) = Some k) \<or> ?m k \<noteq> None"
  proof (cases "\<exists>j < length cs. truthy_key (cs ! j) = Some k")
    case True
    then show ?thesis by simp
  next
    case False
    with Cons.prems have "truthy_key child = Some k \<or> m k \<noteq> None"
      by (auto simp: less_Suc_eq_0_disj)
    then show ?thesis by (auto split: option.splits)
  qed
  from Cons.IH [where m = ?m and i = "Suc i", OF this] show ?case by simp
qed

lemma key_map_has:
  "j < length cs \<Longrightarrow> truthy_key (cs ! j) = Some k \<Longrightarrow> key_map cs k \<noteq> None"
  unfolding key_map_def by (rule key_map_from_has) blast

lemma distinct_keys_index:
  assumes "distinct (List.map_filter f xs)"
    and "i < length xs" "j < length xs" "f (xs ! i) = Some k" "f (xs ! j) = Some k"
  shows "i = j"
  using assms
proof (induction xs arbitrary: i j)
  case Nil
  then show ?case by simp
next
  case (Cons x xs)
  have mem: "k \<in> set (List.map_filter f xs)" if "n < length xs" "f (xs ! n) = Some k" for n
    using that by (auto simp: List.map_filter_def intro!: image_eqI [where x = "xs ! n"])
  show ?case
  proof (cases i)
    case 0
    show ?thesis
    proof (cases j)
      case 0
      with \<open>i = 0\<close> show ?thesis by simp
    next
      case (Suc j')
      with Cons.prems 0 mem [of j'] show ?thesis
        by (auto simp: List.map_filter_simps)
    qed
  next
    case (Suc i')
    show ?thesis
    proof (cases j)
      case 0
      with Cons.prems Suc mem [of i'] show ?thesis
        by (auto simp: List.map_filter_simps)
    next
      case j: (Suc j')
      from Cons.prems(1) have "distinct (List.map_filter f xs)"
        by (auto simp: List.map_filter_simps split: option.splits)
      from Cons.IH [OF this, of i' j'] Cons.prems Suc j show ?thesis by simp
    qed
  qed
qed

lemma remove_unmatched_keep:
  assumes kept: "\<forall>j < length old. \<forall>k. truthy_key (old ! j) = Some k \<longrightarrow> nkm k \<noteq> None"
    and uniq: "distinct (List.map_filter truthy_key old)"
    and inv: "\<forall>j < i. \<forall>k. truthy_key (old ! j) = Some k \<longrightarrow> km k = Some j"
    and le: "i \<le> length old"
  shows "\<exists>km'. remove_unmatched nkm i old km p = Inr (old, km', p)
           \<and> (\<forall>j < length old. \<forall>k. truthy_key (old ! j) = Some k \<longrightarrow> km' k = Some j)"
  using inv le
proof (induction "length old - i" arbitrary: i km)
  case 0
  then have "i = length old" by simp
  with "0.prems" show ?case by (simp add: remove_unmatched.simps)
next
  case (Suc d)
  then have lt: "i < length old" by simp
  from Suc.hyps(2) have d: "d = length old - Suc i" by simp
  from lt have le': "Suc i \<le> length old" by simp
  show ?case
  proof (cases "truthy_key (old ! i)")
    case None
    have "\<forall>j < Suc i. \<forall>k. truthy_key (old ! j) = Some k \<longrightarrow> km k = Some j"
      using Suc.prems(1) None by (auto simp: less_Suc_eq)
    from Suc.hyps(1) [OF d this le']
    obtain km' where "remove_unmatched nkm (Suc i) old km p = Inr (old, km', p)"
      "\<forall>j < length old. \<forall>k. truthy_key (old ! j) = Some k \<longrightarrow> km' k = Some j"
      by blast
    with lt None show ?thesis
      by (subst remove_unmatched.simps) simp
  next
    case (Some k)
    from kept lt Some have present: "nkm k \<noteq> None" by blast
    have "\<forall>j < Suc i. \<forall>k'. truthy_key (old ! j) = Some k' \<longrightarrow> (km(k \<mapsto> i)) k' = Some j"
    proof (intro allI impI)
      fix j k'
      assume j: "j < Suc i" and k': "truthy_key (old ! j) = Some k'"
      show "(km(k \<mapsto> i)) k' = Some j"
      proof (cases "j = i")
        case True
        with k' Some show ?thesis by simp
      next
        case False
        with j have ji: "j < i" by simp
        with lt have "j < length old" by simp
        from distinct_keys_index [OF uniq this lt k'] Some False have "k' \<noteq> k" by auto
        with Suc.prems(1) ji k' show ?thesis by simp
      qed
    qed
    from Suc.hyps(1) [OF d this le']
    obtain km' where "remove_unmatched nkm (Suc i) old (km(k \<mapsto> i)) p = Inr (old, km', p)"
      "\<forall>j < length old. \<forall>k. truthy_key (old ! j) = Some k \<longrightarrow> km' k = Some j"
      by blast
    with lt Some present show ?thesis
      by (subst remove_unmatched.simps) auto
  qed
qed

lemma copy_kind:
  "copy_of a b \<Longrightarrow>
     vkey b = vkey a \<and> vnode_type b = vnode_type a \<and> vnode_value b = vnode_value a"
  by (cases a; cases b) auto

lemma render_kind:
  assumes "render K n T st = Inr (T1, R, st1)"
  shows "vkey T1 = vkey T \<and> vnode_type T1 = vnode_type T \<and> vnode_value T1 = vnode_value T"
proof (cases T)
  case (VPrimitive v k)
  with render_primitive [of K n v k st T1 R st1] assms show ?thesis by simp
next
  case (VElement tg ps cs c k)
  with render_element [of K n tg ps cs c k st T1 R st1] assms show ?thesis by auto
next
  case (VFunction f ps t k)
  with render_function [of K n f ps t k st T1 R st1] assms show ?thesis by auto
qed

lemma same_kind_kept:
  "vnode_type a = vnode_type b \<Longrightarrow> vnode_value a = vnode_value b \<Longrightarrow> \<not> needsReplacement a b"
  by (simp add: needsReplacement_def strict_eq_refl)

lemma map_filter_map: "List.map_filter f xs = List.map_filter (\<lambda>x. x) (map f xs)"
  by (induction xs) (auto simp: List.map_filter_simps split: option.splits)

lemma map_filter_cong_map:
  "map f xs = map g ys \<Longrightarrow> List.map_filter f xs = List.map_filter g ys"
  using map_filter_map [of f xs] map_filter_map [of g ys] by simp

lemma loop_same:
  assumes len: "length new = m"
    and uniq: "distinct (List.map_filter truthy_key new)"
  shows "length old = m \<Longrightarrow> length cur = m \<Longrightarrow> i \<le> m \<Longrightarrow>
    (\<forall>j < m. i \<le> j \<longrightarrow> truthy_key (old ! j) = truthy_key (new ! j)) \<Longrightarrow>
    (\<forall>j < m. i \<le> j \<longrightarrow> (\<forall>k. truthy_key (new ! j) = Some k \<longrightarrow> km k = Some j)) \<Longrightarrow>
    (\<forall>j < m. i \<le> j \<longrightarrow> \<not> needsReplacement (old ! j) (new ! j)) \<Longrightarrow>
    (\<forall>j < m. i \<le> j \<longrightarrow> (\<forall>s. \<exists>o' r' s'. D (old ! j) (new ! j) (cur ! j) s = Inr (o', r', s')
                                  \<and> strip r' = strip (cur ! j) \<and> nextNode s' = nextNode s)) \<Longrightarrow>
    \<exists>old' km' cur' st'.
       diffChildren_loop D R new i (old, km, Element a tg as sty ps ls cur, rc, st)
         = Inr (old', km', Element a tg as sty ps ls cur', rc, st')
       \<and> length old' = m \<and> map strip cur' = map strip cur \<and> nextNode st' = nextNode st"
proof (induction "m - i" arbitrary: i old km cur st)
  case 0
  then have "\<not> i < max (length old) (length new)" using len by simp
  from loop_end [OF this] 0 show ?case by simp
next
  case (Suc d)
  from Suc.hyps(2) have lt: "i < m" by simp
  from Suc.hyps(2) have d: "d = m - Suc i" by simp
  from lt have le': "Suc i \<le> m" by simp
  note lo = \<open>length old = m\<close> and lc = \<open>length cur = m\<close>
  note keys = Suc.prems(4) and kmi = Suc.prems(5) and same = Suc.prems(6) and Dp = Suc.prems(7)
  from lt len lo have lt': "i < max (length old) (length new)" by simp
  from lt len have a1: "at new i = Some (new ! i)" by (simp add: at_def)
  from lt lo have a2: "at old i = Some (old ! i)" by (simp add: at_def)
  have key_i: "truthy_key (old ! i) = truthy_key (new ! i)" using keys lt by simp
  have a3: "moved_from km (new ! i) i = None"
  proof (cases "truthy_key (new ! i)")
    case None
    then show ?thesis by (simp add: moved_from_def)
  next
    case (Some k)
    with kmi lt have "km k = Some i" by simp
    with Some show ?thesis by (simp add: moved_from_def)
  qed
  from same lt have a4: "\<not> needsReplacement (old ! i) (new ! i)" by simp
  from lt lc have a5: "at (children_of (Element a tg as sty ps ls cur)) i = Some (cur ! i)"
    by (simp add: at_def children_of_def)
  from Dp lt obtain o' r' s' where run: "D (old ! i) (new ! i) (cur ! i) st = Inr (o', r', s')"
    and r': "strip r' = strip (cur ! i)" and s': "nextNode s' = nextNode st"
    by blast
  let ?km = "case truthy_key (old ! i) of None \<Rightarrow> km | Some k \<Rightarrow> km(k := None)"
  have step: "diffChildren_step D R new i (old, km, Element a tg as sty ps ls cur, rc, st)
                = Inr (old[i := o'], ?km, Element a tg as sty ps ls (cur[i := r']), rc, s')"
    unfolding step_positional [OF a1 a2 a3 a4 a5] by (simp add: run set_child_Element)
  have unfold: "diffChildren_loop D R new i (old, km, Element a tg as sty ps ls cur, rc, st)
                = diffChildren_loop D R new (Suc i)
                    (old[i := o'], ?km, Element a tg as sty ps ls (cur[i := r']), rc, s')"
    unfolding loop_unfold [OF lt'] step by simp
  have p1: "length (old[i := o']) = m" using lo by simp
  have p2: "length (cur[i := r']) = m" using lc by simp
  have p4: "\<forall>j < m. Suc i \<le> j \<longrightarrow> truthy_key (old[i := o'] ! j) = truthy_key (new ! j)"
    using keys by auto
  have p5: "\<forall>j < m. Suc i \<le> j \<longrightarrow> (\<forall>k. truthy_key (new ! j) = Some k \<longrightarrow> ?km k = Some j)"
  proof (intro allI impI)
    fix j k
    assume j: "j < m" and ij: "Suc i \<le> j" and k: "truthy_key (new ! j) = Some k"
    from kmi j ij k have kj: "km k = Some j" by simp
    show "?km k = Some j"
    proof (cases "truthy_key (old ! i)")
      case None
      with kj show ?thesis by simp
    next
      case (Some k')
      have "k' \<noteq> k"
      proof
        assume "k' = k"
        with Some key_i have "truthy_key (new ! i) = Some k" by simp
        from distinct_keys_index [OF uniq _ _ this k] lt j len have "i = j" by simp
        with ij show False by simp
      qed
      with Some kj show ?thesis by simp
    qed
  qed
  have p6: "\<forall>j < m. Suc i \<le> j \<longrightarrow> \<not> needsReplacement (old[i := o'] ! j) (new ! j)"
    using same by auto
  have p7: "\<forall>j < m. Suc i \<le> j \<longrightarrow>
              (\<forall>s. \<exists>o'' r'' s''. D (old[i := o'] ! j) (new ! j) (cur[i := r'] ! j) s
                                    = Inr (o'', r'', s'')
                     \<and> strip r'' = strip (cur[i := r'] ! j) \<and> nextNode s'' = nextNode s)"
    using Dp by auto
  from Suc.hyps(1) [OF d p1 p2 le' p4 p5 p6 p7, of s']
  obtain old' km' cur' st' where
    rest: "diffChildren_loop D R new (Suc i)
             (old[i := o'], ?km, Element a tg as sty ps ls (cur[i := r']), rc, s')
           = Inr (old', km', Element a tg as sty ps ls cur', rc, st')"
    and res: "length old' = m" "map strip cur' = map strip (cur[i := r'])"
      "nextNode st' = nextNode s'"
    by blast
  have "map strip (cur[i := r']) = map strip cur"
    using r' by (simp add: map_update list_update_same_conv lt lc)
  with unfold rest res s' show ?case by simp
qed

lemma diffChildren_same:
  assumes lo: "length old = m" and ln: "length new = m" and lc: "length cur = m"
    and keys: "\<forall>j < m. truthy_key (old ! j) = truthy_key (new ! j)"
    and uniq: "distinct (List.map_filter truthy_key old)"
    and same: "\<forall>j < m. \<not> needsReplacement (old ! j) (new ! j)"
    and Dp: "\<forall>j < m. \<forall>s. \<exists>o' r' s'. D (old ! j) (new ! j) (cur ! j) s = Inr (o', r', s')
                          \<and> strip r' = strip (cur ! j) \<and> nextNode s' = nextNode s"
  shows "\<exists>old' cur' st'.
           diffChildren D R old new (Element a tg as sty ps ls cur) st
             = Inr (old', Element a tg as sty ps ls cur', st')
           \<and> map strip cur' = map strip cur \<and> nextNode st' = nextNode st"
proof (cases "m = 0")
  case True
  with lo ln lc show ?thesis by (simp add: diffChildren_def)
next
  case False
  let ?p = "Element a tg as sty ps ls cur"
  have "map truthy_key old = map truthy_key new"
    using keys lo ln by (simp add: list_eq_iff_nth_eq)
  from map_filter_cong_map [OF this] uniq
  have uniq': "distinct (List.map_filter truthy_key new)" by simp
  have kept: "\<forall>j < length old. \<forall>k. truthy_key (old ! j) = Some k \<longrightarrow> key_map new k \<noteq> None"
  proof (intro allI impI)
    fix j k
    assume j: "j < length old" and k: "truthy_key (old ! j) = Some k"
    with keys lo have "truthy_key (new ! j) = Some k" by simp
    from key_map_has [OF _ this] j lo ln show "key_map new k \<noteq> None" by simp
  qed
  have "\<forall>j < (0::nat). \<forall>k. truthy_key (old ! j) = Some k \<longrightarrow> key_map old k = Some j"
    by simp
  from remove_unmatched_keep [where p = ?p, OF kept uniq this]
  obtain km' where first: "remove_unmatched (key_map new) 0 old (key_map old) ?p
                             = Inr (old, km', ?p)"
    and km': "\<forall>j < length old. \<forall>k. truthy_key (old ! j) = Some k \<longrightarrow> km' k = Some j"
    by auto
  have q4: "\<forall>j < m. 0 \<le> j \<longrightarrow> truthy_key (old ! j) = truthy_key (new ! j)"
    using keys by simp
  have q5: "\<forall>j < m. 0 \<le> j \<longrightarrow> (\<forall>k. truthy_key (new ! j) = Some k \<longrightarrow> km' k = Some j)"
    using km' keys lo by simp
  have q6: "\<forall>j < m. 0 \<le> j \<longrightarrow> \<not> needsReplacement (old ! j) (new ! j)"
    using same by simp
  have q7: "\<forall>j < m. 0 \<le> j \<longrightarrow>
              (\<forall>s. \<exists>o' r' s'. D (old ! j) (new ! j) (cur ! j) s = Inr (o', r', s')
                     \<and> strip r' = strip (cur ! j) \<and> nextNode s' = nextNode s)"
    using Dp by simp
  from loop_same [where i = 0 and R = R and a = a and tg = tg and as = as and sty = sty
      and ps = ps and ls = ls and rc = 0 and st = st, OF ln uniq' lo lc _ q4 q5 q6 q7]
  obtain old' km2 cur' st' where
    loop: "diffChildren_loop D R new 0 (old, km', ?p, 0, st)
             = Inr (old', km2, Element a tg as sty ps ls cur', 0, st')"
    and res: "map strip cur' = map strip cur" "nextNode st' = nextNode st"
    by auto
  from False lo ln first loop res show ?thesis
    by (simp add: diffChildren_def)
qed

lemma element_children:
  "is_element e \<Longrightarrow> \<exists>a tg as sty ps ls. e = Element a tg as sty ps ls (children_of e)"
  by (cases e) (auto simp: is_element_def children_of_def)

subsection \<open>Idempotence\<close>

text \<open>
  Claim C2. Let \<open>render\<close> turn the tree \<open>T\<close> into the render target \<open>R\<close>,
  leaving the mounted tree \<open>T1\<close> (\<open>T\<close> with the result of every component
  recorded in it), and let \<open>T'\<close> be a copy of \<open>T\<close> with equal values: the
  same kinds, tags, function references, keys and primitive values position by position,
  the same property values (handlers being the same function references), style
  objects with the same fields. Keys are unique among siblings throughout \<open>T1\<close>.
  Then \<open>diff\<close> of \<open>T1\<close> against \<open>T'\<close> on \<open>R\<close> returns, in whatever
  world it starts, and the render target it leaves is made of the same nodes in the
  same order with the same tags, attributes, style declarations, properties and text,
  and no node was created. Listeners are registered again under a new controller and
  are not compared here.
\<close>

theorem idempotent:
  "render K n T st0 = Inr (T1, R, st1) \<Longrightarrow> copy_of T T' \<Longrightarrow> keys_ok T1 \<Longrightarrow>
     \<exists>T2 R' st'. diff K n T1 T' R st = Inr (T2, R', st')
        \<and> strip R' = strip R \<and> nextNode st' = nextNode st"
proof (induction n arbitrary: T T' T1 R st0 st1 st)
  case 0
  then show ?case by (simp add: render.simps)
next
  case (Suc m)
  note run = Suc.prems(1) and copy = Suc.prems(2) and ok = Suc.prems(3)
  show ?case
  proof (cases T)
    case (VPrimitive v k)
    with copy have T': "T' = VPrimitive v k" by (cases T') auto
    from render_primitive [of K "Suc m" v k st0 T1 R st1] run VPrimitive
    have "T1 = VPrimitive v k" by simp
    with T' show ?thesis by (simp add: diff_Suc_primitive strict_eq_refl)
  next
    case (VElement tg ps cs c k)
    with copy obtain ps' cs' c' where T': "T' = VElement tg ps' cs' c' k"
      and pc: "props_copy ps ps'" and cc: "list_all2 copy_of cs cs'"
      by (cases T') auto
    let ?s = "st0\<lparr>nextNode := Suc (nextNode st0)\<rparr>"
    let ?e0 = "Element (nextNode st0) tg [] [] [] [] []"
    from render_element [of K "Suc m" tg ps cs c k st0 T1 R st1] run VElement
    obtain e1 cs1 where props: "forEach (render_prop c ?s) ps ?e0 = Inr e1"
      and kids: "render_children (render K m) cs e1 ?s = Inr (cs1, R, st1)"
      and T1: "T1 = VElement tg ps cs1 c k"
      by auto
    have "is_element ?e0" by (simp add: is_element_def)
    from rendered_props [OF props this]
    have e1: "is_element e1" and e1c: "children_of e1 = []"
      and cbs: "\<forall>entry \<in> set ps. startsWith (fst entry) ''on'' \<longrightarrow> truthy (snd entry)
                  \<longrightarrow> callable (snd entry)"
      by (simp_all add: children_of_def)
    have "\<forall>x \<in> set (children_of e1). nodeId x < nextNode ?s" using e1c by simp
    from render_children_shape [OF kids this] e1c
    obtain rs where R: "R = set_childNodes e1 rs"
      and lrs: "length rs = length cs" and lcs1: "length cs1 = length cs"
      and each: "\<forall>i < length cs. rendered K m (cs ! i) (cs1 ! i) (rs ! i)"
      by auto
    from e1 R have elR: "is_element R" and chR: "children_of R = rs"
      by (auto simp: is_element_cases set_childNodes_def children_of_def)
    from diffProps_copy [where tg = tg and cs = cs1 and c = c and k = k and tg' = tg
        and cs' = cs' and c' = c' and k' = k and st = st, OF pc elR cbs]
    obtain c1 R1 s1 where dp: "diffProps T1 T' R st = Inr (VElement tg ps' cs1 c1 k, R1, s1)"
      and elR1: "is_element R1" and sR1: "strip R1 = strip R"
      and chR1: "children_of R1 = children_of R" and n1: "nextNode s1 = nextNode st"
      unfolding T1 T' by blast
    from element_children [OF elR1] chR1 chR
    obtain a tg1 as sty ps1 ls where R1: "R1 = Element a tg1 as sty ps1 ls rs" by auto
    from cc have lcs': "length cs' = length cs" by (simp add: list_all2_lengthD)
    have kinds: "vkey (cs1 ! j) = vkey (cs' ! j) \<and> vnode_type (cs1 ! j) = vnode_type (cs' ! j)
                 \<and> vnode_value (cs1 ! j) = vnode_value (cs' ! j)" if "j < length cs" for j
    proof -
      from each that obtain s s' where "render K m (cs ! j) s = Inr (cs1 ! j, rs ! j, s')"
        by (auto simp: rendered_def)
      from render_kind [OF this] copy_kind [OF list_all2_nthD [OF cc that]]
      show ?thesis by simp
    qed
    have k1: "\<forall>j < length cs. truthy_key (cs1 ! j) = truthy_key (cs' ! j)"
      using kinds by (simp add: truthy_key_def)
    from ok T1 have k2: "distinct (List.map_filter truthy_key cs1)" by simp
    have k3: "\<forall>j < length cs. \<not> needsReplacement (cs1 ! j) (cs' ! j)"
      using kinds same_kind_kept by blast
    have k4: "\<forall>j < length cs. \<forall>s. \<exists>o' r' s'.
                diff K m (cs1 ! j) (cs' ! j) (rs ! j) s = Inr (o', r', s')
                \<and> strip r' = strip (rs ! j) \<and> nextNode s' = nextNode s"
    proof (intro allI impI)
      fix j s
      assume j: "j < length cs"
      with each obtain s0 s0' where r: "render K m (cs ! j) s0 = Inr (cs1 ! j, rs ! j, s0')"
        by (auto simp: rendered_def)
      from ok T1 j lcs1 have "keys_ok (cs1 ! j)" by (simp add: list_all_length)
      from Suc.IH [OF r list_all2_nthD [OF cc j] this, of s]
      show "\<exists>o' r' s'. diff K m (cs1 ! j) (cs' ! j) (rs ! j) s = Inr (o', r', s')
              \<and> strip r' = strip (rs ! j) \<and> nextNode s' = nextNode s" .
    qed
    from diffChildren_same [where R = "render K m" and a = a and tg = tg1 and as = as
        and sty = sty and ps = ps1 and ls = ls and st = s1, OF lcs1 lcs' lrs k1 k2 k3 k4]
    obtain old' cur' st' where
      dc: "diffChildren (diff K m) (render K m) cs1 cs' R1 s1
             = Inr (old', Element a tg1 as sty ps1 ls cur', st')"
      and cur': "map strip cur' = map strip rs" and n2: "nextNode st' = nextNode s1"
      unfolding R1 by blast
    have "diff K (Suc m) T1 T' R st
            = Inr (VElement tg ps' old' c1 k, Element a tg1 as sty ps1 ls cur', st')"
      using dp dc by (simp add: T1 T' diff_Suc_element diffElement_def)
    moreover have "strip (Element a tg1 as sty ps1 ls cur') = strip R"
      using cur' sR1 R1 by simp
    ultimately show ?thesis using n1 n2 by simp
  next
    case (VFunction f ps t k)
    with copy obtain t' where T': "T' = VFunction f ps t' k" by (cases T') auto
    from render_function [of K "Suc m" f ps t k st0 T1 R st1] run VFunction
    obtain tn s1 tn1 where inv: "invoke K f ps st0 = Inr (tn, s1)"
      and r: "render K m tn s1 = Inr (tn1, R, st1)"
      and T1: "T1 = VFunction f ps (Some tn1) k"
      by auto
    show ?thesis
    proof (cases "truthy (prop_get ps ''lazy'') \<and> stringify_props ps = stringify_props ps")
      case True
      then show ?thesis by (simp add: T1 T' diff_Suc_function)
    next
      case False
      from invoke_total [of K f ps st] obtain tn' s2 where inv': "invoke K f ps st = Inr (tn', s2)"
        by blast
      from invoke_effects [OF inv'] have n2: "nextNode s2 = nextNode st" by simp
      from ok T1 have "keys_ok tn1" by simp
      from Suc.IH [OF r invoke_copy [OF inv inv'] this, of s2]
      obtain T2 R' st' where d: "diff K m tn1 tn' R s2 = Inr (T2, R', st')"
        and res: "strip R' = strip R" "nextNode st' = nextNode s2"
        by blast
      from False inv' d have "diff K (Suc m) T1 T' R st = Inr (VFunction f ps (Some T2) k, R', st')"
        by (simp add: T1 T' diff_Suc_function)
      with res n2 show ?thesis by simp
    qed
  qed
qed

lemmas mounted_simps = children_simps mounted_tree_def mounted_copy_def world8_def
  mounted_root_def props_copy_def value_copy_def eventName_def toLowerCase_def
  toLowerCase_char_def Object_assign_def List.map_filter_simps

theorem idempotent_witness:
  "\<exists>T1 st1. render title_comp (Suc (Suc (Suc 0))) mounted_tree world8 = Inr (T1, mounted_root, st1)
     \<and> copy_of mounted_tree mounted_copy \<and> keys_ok T1
     \<and> (\<exists>T2 R' st'. diff title_comp (Suc (Suc (Suc 0))) T1 mounted_copy mounted_root st1
                        = Inr (T2, R', st')
            \<and> strip R' = strip mounted_root \<and> nextNode st' = nextNode st1)"
proof -
  have "\<exists>T1 st1. render title_comp (Suc (Suc (Suc 0))) mounted_tree world8
                     = Inr (T1, mounted_root, st1) \<and> keys_ok T1"
    by (simp add: mounted_simps)
  then obtain T1 st1 where
    run: "render title_comp (Suc (Suc (Suc 0))) mounted_tree world8 = Inr (T1, mounted_root, st1)"
    and ok: "keys_ok T1"
    by blast
  have copy: "copy_of mounted_tree mounted_copy"
    by (simp add: mounted_simps)
  from idempotent [OF run copy ok, of st1] run copy ok show ?thesis
    by blast
qed

text \<open>
  Uniqueness of keys among siblings is needed: of two siblings \<open>div\<close> and
  \<open>span\<close> with the same key, reconciling against a copy swaps the two nodes,
  writes the \<open>div\<close> onto the \<open>span\<close> and replaces the \<open>div\<close> by a
  new \<open>span\<close>.
\<close>

lemma duplicate_keys:
  "\<exists>T1 st1. render no_comps (Suc (Suc 0)) twins world0 = Inr (T1, twins_root, st1)
      \<and> copy_of twins twins \<and> \<not> keys_ok T1
      \<and> (\<exists>T2 st'. diff no_comps (Suc (Suc 0)) T1 twins twins_root st1
            = Inr (T2, Element 0 ''ul'' [] [] [] []
                         [Element 2 ''span'' [] [] [] [] [], Element 3 ''span'' [] [] [] [] []],
                   st'))"
  by (simp add: mounted_simps twins_def twins_root_def world0_def)

end
